theory Spec2Isabelle
  imports
    Main
    "HOL-Library.Char_ord"
    "HOL-Library.List_Lexorder"
begin

section \<open>Values, errors and entries\<close>

text \<open>
  Go strings and byte slices are both sequences of bytes; the conversions
  \<^verbatim>\<open>[]byte(s)\<close> and \<^verbatim>\<open>string(b)\<close> copy the bytes unchanged, so both are
  modelled as lists of 8-bit characters and the conversions are the identity.
  Strings are compared byte-wise (Go's \<^verbatim>\<open><\<close> on strings), which is the
  lexicographic order on \<open>char list\<close>.
\<close>

type_synonym bytes = "char list"

text \<open>
  The dynamic type \<^verbatim>\<open>any\<close>: the two representations the backends accept
  (\<^verbatim>\<open>[]byte\<close> and \<^verbatim>\<open>string\<close>) and the other dynamic types a caller can
  pass. \<open>GOther t\<close> is a value of any further Go type, named \<open>t\<close>.
\<close>

datatype gval =
    GNil
  | GBool bool
  | GInt int
  | GString string
  | GBytes bytes
  | GSlice "gval list"
  | GMap "(string \<times> gval) list"
  | GOther string

text \<open>
  Error values. \<open>Wrap ctx e\<close> is \<^verbatim>\<open>fmt.Errorf("ctx: %w", e)\<close>. The \<open>Err*\<close>
  constructors are errors reported by the embedded database engine, \<open>CodecError\<close>
  is an error reported by \<^verbatim>\<open>encoding/json\<close>.
\<close>

datatype error =
    KeyNotFound string
  | UnsupportedValueType gval
  | BucketNotFound
  | ErrOpenFailed
  | ErrBucketCreate
  | ErrDatabaseNotOpen
  | ErrTxFailed
  | ErrCloseFailed
  | ErrKeyRequired
  | ErrKeyTooLarge
  | ErrValueTooLarge
  | CodecError string
  | Wrap string error

record Entry =
  Key :: string
  Value :: gval

text \<open>\<^verbatim>\<open>strings.HasPrefix(s, prefix)\<close>:
  \<^verbatim>\<open>len(s) >= len(prefix) && s[:len(prefix)] == prefix\<close>.\<close>

definition HasPrefix :: "string \<Rightarrow> string \<Rightarrow> bool" where
  "HasPrefix s pre = (length pre \<le> length s \<and> take (length pre) s = pre)"

section \<open>MemoryStore (kv/store/memory.go)\<close>

text \<open>
  The container is a Go map from string to byte slice. It is modelled as an
  association list with pairwise distinct keys; the order of the list stands for
  the unspecified iteration order of \<^verbatim>\<open>range\<close> over the map. The read/write
  lock is not modelled: every operation runs to completion under it.
\<close>

record MemoryStore =
  container :: "(string \<times> bytes) list"

definition NewMemoryStore :: MemoryStore where
  "NewMemoryStore = \<lparr>container = []\<rparr>"

text \<open>\<^verbatim>\<open>m[key] = v\<close> and \<^verbatim>\<open>delete(m, key)\<close> on the association list.\<close>

fun map_assign :: "(string \<times> bytes) list \<Rightarrow> string \<Rightarrow> bytes \<Rightarrow> (string \<times> bytes) list" where
  "map_assign [] k v = [(k, v)]"
| "map_assign ((k', v') # rest) k v =
     (if k' = k then (k, v) # rest else (k', v') # map_assign rest k v)"

definition map_delete :: "(string \<times> bytes) list \<Rightarrow> string \<Rightarrow> (string \<times> bytes) list" where
  "map_delete m k = filter (\<lambda>kv. fst kv \<noteq> k) m"

text \<open>\<^verbatim>\<open>m[key]\<close> read without the ok flag: the zero value (a nil slice) when absent.\<close>

definition map_index :: "(string \<times> bytes) list \<Rightarrow> string \<Rightarrow> bytes" where
  "map_index m k = (case map_of m k of None \<Rightarrow> [] | Some v \<Rightarrow> v)"

definition MemoryStore_Get :: "MemoryStore \<Rightarrow> string \<Rightarrow> error + gval" where
  "MemoryStore_Get s key =
     (case map_of (container s) key of
        None \<Rightarrow> Inl (KeyNotFound key)
      | Some v \<Rightarrow> Inr (GBytes v))"

definition MemoryStore_Set :: "MemoryStore \<Rightarrow> string \<Rightarrow> gval \<Rightarrow> error option \<times> MemoryStore" where
  "MemoryStore_Set s key val =
     (case val of
        GBytes v \<Rightarrow> (None, s\<lparr>container := map_assign (container s) key v\<rparr>)
      | GString v \<Rightarrow> (None, s\<lparr>container := map_assign (container s) key v\<rparr>)
      | _ \<Rightarrow> (Some (UnsupportedValueType val), s))"

definition MemoryStore_Delete :: "MemoryStore \<Rightarrow> string \<Rightarrow> error option \<times> MemoryStore" where
  "MemoryStore_Delete s key = (None, s\<lparr>container := map_delete (container s) key\<rparr>)"

definition MemoryStore_Exists :: "MemoryStore \<Rightarrow> string \<Rightarrow> error + bool" where
  "MemoryStore_Exists s key = Inr (map_of (container s) key \<noteq> None)"

definition MemoryStore_Clear :: "MemoryStore \<Rightarrow> error option \<times> MemoryStore" where
  "MemoryStore_Clear s = (None, s\<lparr>container := []\<rparr>)"

definition MemoryStore_Size :: "MemoryStore \<Rightarrow> error + int" where
  "MemoryStore_Size s = Inr (int (length (container s)))"

text \<open>
  The second loop of \<^verbatim>\<open>MemoryStore.List\<close>: walk the sorted keys, stop at the
  limit, append one entry per key. \<open>count\<close> is an \<^verbatim>\<open>int64\<close>; it never exceeds the
  number of keys, so it is modelled as an unbounded integer.
\<close>

fun mem_list_loop ::
  "(string \<times> bytes) list \<Rightarrow> bool \<Rightarrow> int \<Rightarrow> string list \<Rightarrow> int \<Rightarrow> Entry list \<Rightarrow> Entry list" where
  "mem_list_loop m hasLimit limit [] count entries = entries"
| "mem_list_loop m hasLimit limit (k # ks) count entries =
     (if hasLimit \<and> count \<ge> limit then entries
      else mem_list_loop m hasLimit limit ks (count + 1)
             (entries @ [\<lparr>Key = k, Value = GBytes (map_index m k)\<rparr>]))"

definition MemoryStore_List :: "MemoryStore \<Rightarrow> string \<Rightarrow> int \<Rightarrow> error + Entry list" where
  "MemoryStore_List s pre limit =
     (let keys = sort (filter (\<lambda>k. pre = [] \<or> HasPrefix k pre) (map fst (container s)));
          hasLimit = (limit > 0)
      in Inr (mem_list_loop (container s) hasLimit limit keys 0 []))"

definition MemoryStore_Close :: "MemoryStore \<Rightarrow> error option \<times> MemoryStore" where
  "MemoryStore_Close s = (None, s)"

section \<open>The embedded database engine, as DiskStore uses it\<close>

text \<open>
  DiskStore is written against the bbolt engine, which is not part of the
  repository. The engine is modelled by its contract: a database file holds named
  buckets, a bucket holds its keys in ascending byte order, a transaction either
  commits the changes of its function or leaves the file as it was, and
  \<^verbatim>\<open>Bucket.Get\<close> yields nil exactly for an absent key. \<^verbatim>\<open>Bucket.Put\<close> rejects
  an empty key, a key longer than \<^verbatim>\<open>MaxKeySize\<close> and a value longer than
  \<^verbatim>\<open>MaxValueSize\<close>. Whether an engine call reports an I/O failure is an input of
  every operation: the record of flags below says which engine calls of that
  operation fail.

  The world outside the store is the database files by path and, for every file,
  the number of engine handles that are open on it: \<^verbatim>\<open>bolt.Open\<close> adds one,
  \<^verbatim>\<open>db.Close\<close> takes one away, and a handle that is dropped without
  \<^verbatim>\<open>Close\<close> stays counted. The engine's lock on the file is not modelled: where
  the engine would make a second \<^verbatim>\<open>Open\<close> of a held file wait, the model lets it
  proceed, which only adds behaviours.
\<close>

type_synonym bbucket = "(string \<times> bytes) list"
type_synonym bfile = "(bytes \<times> bbucket) list"

record world =
  files :: "string \<Rightarrow> bfile option"
  held :: "string \<Rightarrow> nat"

record engine_io =
  open_fails :: bool
  create_fails :: bool
  commit_fails :: bool
  tx_fails :: bool
  close_fails :: bool

definition io_ok :: engine_io where
  "io_ok = \<lparr>open_fails = False, create_fails = False, commit_fails = False,
            tx_fails = False, close_fails = False\<rparr>"

text \<open>The engine call that closes the file fails; every other call succeeds.\<close>

definition io_close_fails :: engine_io where
  "io_close_fails = \<lparr>open_fails = False, create_fails = False, commit_fails = False,
                     tx_fails = False, close_fails = True\<rparr>"

text \<open>Creating the bucket fails in the transaction that \<^verbatim>\<open>open\<close> runs; every
  other call succeeds.\<close>

definition io_create_fails :: engine_io where
  "io_create_fails = \<lparr>open_fails = False, create_fails = True, commit_fails = False,
                      tx_fails = False, close_fails = False\<rparr>"

text \<open>No database file exists yet and no handle is open.\<close>

definition no_files :: world where
  "no_files = \<lparr>files = (\<lambda>p. None), held = (\<lambda>p. 0)\<rparr>"

text \<open>\<^verbatim>\<open>bolt.Open(path, 0o600, nil)\<close>: creates the file when it does not exist. The
  handle is identified by the path of the file it has open.\<close>

definition bolt_Open :: "engine_io \<Rightarrow> world \<Rightarrow> string \<Rightarrow> error + (string \<times> world)" where
  "bolt_Open io w p =
     (if open_fails io then Inl ErrOpenFailed
      else Inr (p, w\<lparr>files := (case files w p of
                                 None \<Rightarrow> (files w)(p \<mapsto> [])
                               | Some f \<Rightarrow> files w),
                     held := (held w)(p := held w p + 1)\<rparr>))"

definition tx_CreateBucketIfNotExists :: "bfile \<Rightarrow> bytes \<Rightarrow> bfile" where
  "tx_CreateBucketIfNotExists f name =
     (case map_of f name of None \<Rightarrow> f @ [(name, [])] | Some b \<Rightarrow> f)"

definition tx_Bucket :: "bfile \<Rightarrow> bytes \<Rightarrow> bbucket option" where
  "tx_Bucket f name = map_of f name"

text \<open>Writing a changed bucket back under its name (the engine mutates the
  bucket of the running transaction in place).\<close>

definition tx_store :: "bfile \<Rightarrow> bytes \<Rightarrow> bbucket \<Rightarrow> bfile" where
  "tx_store f name b = map (\<lambda>nb. if fst nb = name then (name, b) else nb) f"

definition bucket_Get :: "bbucket \<Rightarrow> string \<Rightarrow> bytes option" where
  "bucket_Get b key = map_of b key"

text \<open>The place of a key in the bucket's key order: an equal key is replaced.\<close>

fun bucket_insert :: "bbucket \<Rightarrow> string \<Rightarrow> bytes \<Rightarrow> bbucket" where
  "bucket_insert [] k v = [(k, v)]"
| "bucket_insert ((k', v') # rest) k v =
     (if k = k' then (k, v) # rest
      else if k < k' then (k, v) # (k', v') # rest
      else (k', v') # bucket_insert rest k v)"

definition MaxKeySize :: nat where
  "MaxKeySize = 32768"

definition MaxValueSize :: nat where
  "MaxValueSize = 2147483646"

definition bucket_Put :: "bbucket \<Rightarrow> string \<Rightarrow> bytes \<Rightarrow> error + bbucket" where
  "bucket_Put b k v =
     (if length k = 0 then Inl ErrKeyRequired
      else if length k > MaxKeySize then Inl ErrKeyTooLarge
      else if length v > MaxValueSize then Inl ErrValueTooLarge
      else Inr (bucket_insert b k v))"

definition bucket_Delete :: "bbucket \<Rightarrow> string \<Rightarrow> bbucket" where
  "bucket_Delete b k = filter (\<lambda>kv. fst kv \<noteq> k) b"

text \<open>\<^verbatim>\<open>db.Update(fn)\<close> and \<^verbatim>\<open>db.View(fn)\<close>. A handle that is not open yields
  the engine's "database not open" error; an error of \<open>fn\<close> rolls the transaction
  back.\<close>

definition db_Update ::
  "bool \<Rightarrow> string option \<Rightarrow> world \<Rightarrow> (bfile \<Rightarrow> error + bfile) \<Rightarrow> error option \<times> world" where
  "db_Update fails h w fn =
     (case h of
        None \<Rightarrow> (Some ErrDatabaseNotOpen, w)
      | Some p \<Rightarrow>
          (case files w p of
             None \<Rightarrow> (Some ErrDatabaseNotOpen, w)
           | Some f \<Rightarrow>
               if fails then (Some ErrTxFailed, w)
               else (case fn f of
                       Inl e \<Rightarrow> (Some e, w)
                     | Inr f' \<Rightarrow> (None, w\<lparr>files := (files w)(p \<mapsto> f')\<rparr>))))"

definition db_View ::
  "bool \<Rightarrow> string option \<Rightarrow> world \<Rightarrow> (bfile \<Rightarrow> error + 'a) \<Rightarrow> error + 'a" where
  "db_View fails h w fn =
     (case h of
        None \<Rightarrow> Inl ErrDatabaseNotOpen
      | Some p \<Rightarrow>
          (case files w p of
             None \<Rightarrow> Inl ErrDatabaseNotOpen
           | Some f \<Rightarrow> if fails then Inl ErrTxFailed else fn f))"

text \<open>\<^verbatim>\<open>db.Close()\<close>: closing a handle that is not open does nothing; a close
  that reports an error leaves the handle as it was.\<close>

definition db_Close ::
  "bool \<Rightarrow> string option \<Rightarrow> world \<Rightarrow> error option \<times> string option \<times> world" where
  "db_Close fails h w =
     (if fails then (Some ErrCloseFailed, h, w)
      else (None, None,
            case h of
              None \<Rightarrow> w
            | Some p \<Rightarrow> w\<lparr>held := (held w)(p := held w p - 1)\<rparr>))"

section \<open>DiskStore (kv/store/disk.go)\<close>

text \<open>
  \<open>handle\<close> is \<open>Some p\<close> when the store's \<^verbatim>\<open>*bolt.DB\<close> is open on the file \<open>p\<close>
  and \<open>None\<close> when it is not open (as the zero \<^verbatim>\<open>new(bolt.DB)\<close> of
  \<^verbatim>\<open>NewDiskStore\<close>). \<open>refCount\<close> is an \<^verbatim>\<open>atomic.Int64\<close>; it moves by one per call,
  so wrap-around needs \<open>2^63\<close> calls and the counter is modelled as an integer.
\<close>

record DiskStore =
  path :: string
  handle :: "string option"
  bucket :: bytes
  opened :: bool
  refCount :: int

definition DefaultDiskStorePath :: string where
  "DefaultDiskStorePath = ''.k6.kv''"

definition DefaultKvBucket :: string where
  "DefaultKvBucket = ''k6''"

definition NewDiskStore :: DiskStore where
  "NewDiskStore =
     \<lparr>path = DefaultDiskStorePath, handle = None, bucket = [], opened = False, refCount = 0\<rparr>"

text \<open>The part of \<^verbatim>\<open>open\<close> that runs holding \<^verbatim>\<open>s.lock\<close> (lines 51 to 80),
  starting with the second look at \<^verbatim>\<open>s.opened\<close>. When the transaction that
  creates the bucket fails, \<^verbatim>\<open>open\<close> returns the error without closing the
  handler it has just opened: the store is left as it was and the world \<open>w2\<close>
  still counts that handler on the file.\<close>

definition open_locked :: "engine_io \<Rightarrow> DiskStore \<Rightarrow> world \<Rightarrow> error option \<times> DiskStore \<times> world" where
  "open_locked io s w =
     (if opened s then (None, s, w)
      else
        (case bolt_Open io w (path s) of
           Inl err \<Rightarrow> (Some err, s, w)
         | Inr (handler, w1) \<Rightarrow>
             (case db_Update (commit_fails io) (Some handler) w1
                     (\<lambda>tx. if create_fails io
                           then Inl (Wrap ''failed to create internal bucket'' ErrBucketCreate)
                           else Inr (tx_CreateBucketIfNotExists tx DefaultDiskStorePath)) of
                (Some err, w2) \<Rightarrow> (Some err, s, w2)
              | (None, w2) \<Rightarrow>
                  (None,
                   s\<lparr>handle := Some handler, bucket := DefaultDiskStorePath,
                     opened := True, refCount := refCount s + 1\<rparr>,
                   w2))))"

text \<open>\<^verbatim>\<open>open\<close> as one caller runs it: the lock-free look at \<^verbatim>\<open>s.opened\<close>
  (lines 46 to 49), then the locked part.\<close>

definition DiskStore_open :: "engine_io \<Rightarrow> DiskStore \<Rightarrow> world \<Rightarrow> error option \<times> DiskStore \<times> world" where
  "DiskStore_open io s w =
     (if opened s then (None, s\<lparr>refCount := refCount s + 1\<rparr>, w)
      else open_locked io s w)"

definition DiskStore_Get ::
  "engine_io \<Rightarrow> DiskStore \<Rightarrow> world \<Rightarrow> string \<Rightarrow> (error + gval) \<times> DiskStore \<times> world" where
  "DiskStore_Get io s w key =
     (case DiskStore_open io s w of
        (Some err, s1, w1) \<Rightarrow> (Inl (Wrap ''failed to open disk store'' err), s1, w1)
      | (None, s1, w1) \<Rightarrow>
          (case db_View (tx_fails io) (handle s1) w1
                  (\<lambda>tx. case tx_Bucket tx (bucket s1) of
                          None \<Rightarrow> Inl BucketNotFound
                        | Some b \<Rightarrow> Inr (bucket_Get b key)) of
             Inl err \<Rightarrow> (Inl (Wrap ''unable to get value from disk store'' err), s1, w1)
           | Inr None \<Rightarrow> (Inl (KeyNotFound key), s1, w1)
           | Inr (Some v) \<Rightarrow> (Inr (GBytes v), s1, w1)))"

text \<open>The write transaction shared by \<^verbatim>\<open>Set\<close>, \<^verbatim>\<open>Delete\<close> and \<^verbatim>\<open>Clear\<close>:
  look the bucket up, change it, and wrap an error with the operation's text.\<close>

definition bucket_tx ::
  "engine_io \<Rightarrow> DiskStore \<Rightarrow> world \<Rightarrow> string \<Rightarrow> (bbucket \<Rightarrow> error + bbucket) \<Rightarrow>
   error option \<times> DiskStore \<times> world" where
  "bucket_tx io s w ctx change =
     (case db_Update (tx_fails io) (handle s) w
             (\<lambda>tx. case tx_Bucket tx (bucket s) of
                     None \<Rightarrow> Inl BucketNotFound
                   | Some b \<Rightarrow>
                       (case change b of
                          Inl e \<Rightarrow> Inl e
                        | Inr b' \<Rightarrow> Inr (tx_store tx (bucket s) b'))) of
        (Some err, w') \<Rightarrow> (Some (Wrap ctx err), s, w')
      | (None, w') \<Rightarrow> (None, s, w'))"

definition DiskStore_Set ::
  "engine_io \<Rightarrow> DiskStore \<Rightarrow> world \<Rightarrow> string \<Rightarrow> gval \<Rightarrow> error option \<times> DiskStore \<times> world" where
  "DiskStore_Set io s w key val =
     (case DiskStore_open io s w of
        (Some err, s1, w1) \<Rightarrow> (Some (Wrap ''failed to open disk store'' err), s1, w1)
      | (None, s1, w1) \<Rightarrow>
          (case val of
             GBytes v \<Rightarrow>
               bucket_tx io s1 w1 ''unable to insert value into disk store''
                 (\<lambda>b. bucket_Put b key v)
           | GString v \<Rightarrow>
               bucket_tx io s1 w1 ''unable to insert value into disk store''
                 (\<lambda>b. bucket_Put b key v)
           | _ \<Rightarrow> (Some (UnsupportedValueType val), s1, w1)))"

definition DiskStore_Delete ::
  "engine_io \<Rightarrow> DiskStore \<Rightarrow> world \<Rightarrow> string \<Rightarrow> error option \<times> DiskStore \<times> world" where
  "DiskStore_Delete io s w key =
     (case DiskStore_open io s w of
        (Some err, s1, w1) \<Rightarrow> (Some (Wrap ''failed to open disk store'' err), s1, w1)
      | (None, s1, w1) \<Rightarrow>
          bucket_tx io s1 w1 ''unable to delete value from disk store''
            (\<lambda>b. Inr (bucket_Delete b key)))"

definition DiskStore_Exists ::
  "engine_io \<Rightarrow> DiskStore \<Rightarrow> world \<Rightarrow> string \<Rightarrow> (error + bool) \<times> DiskStore \<times> world" where
  "DiskStore_Exists io s w key =
     (case DiskStore_open io s w of
        (Some err, s1, w1) \<Rightarrow> (Inl (Wrap ''failed to open disk store'' err), s1, w1)
      | (None, s1, w1) \<Rightarrow>
          (case db_View (tx_fails io) (handle s1) w1
                  (\<lambda>tx. case tx_Bucket tx (bucket s1) of
                          None \<Rightarrow> Inl BucketNotFound
                        | Some b \<Rightarrow> Inr (bucket_Get b key \<noteq> None)) of
             Inl err \<Rightarrow> (Inl (Wrap ''unable to check if key exists in disk store'' err), s1, w1)
           | Inr exists \<Rightarrow> (Inr exists, s1, w1)))"

text \<open>\<^verbatim>\<open>Clear\<close> deletes every key the bucket's \<^verbatim>\<open>ForEach\<close> visits.\<close>

definition DiskStore_Clear ::
  "engine_io \<Rightarrow> DiskStore \<Rightarrow> world \<Rightarrow> error option \<times> DiskStore \<times> world" where
  "DiskStore_Clear io s w =
     (case DiskStore_open io s w of
        (Some err, s1, w1) \<Rightarrow> (Some (Wrap ''failed to open disk store'' err), s1, w1)
      | (None, s1, w1) \<Rightarrow>
          bucket_tx io s1 w1 ''unable to clear disk store''
            (\<lambda>b. Inr (foldl (\<lambda>acc kv. bucket_Delete acc (fst kv)) b b)))"

definition DiskStore_Size ::
  "engine_io \<Rightarrow> DiskStore \<Rightarrow> world \<Rightarrow> (error + int) \<times> DiskStore \<times> world" where
  "DiskStore_Size io s w =
     (case DiskStore_open io s w of
        (Some err, s1, w1) \<Rightarrow> (Inl (Wrap ''failed to open disk store'' err), s1, w1)
      | (None, s1, w1) \<Rightarrow>
          (case db_View (tx_fails io) (handle s1) w1
                  (\<lambda>tx. case tx_Bucket tx (bucket s1) of
                          None \<Rightarrow> Inl BucketNotFound
                        | Some b \<Rightarrow> Inr (int (length b))) of
             Inl err \<Rightarrow> (Inl (Wrap ''unable to get size of disk store'' err), s1, w1)
           | Inr n \<Rightarrow> (Inr n, s1, w1)))"

text \<open>The cursor loop of \<^verbatim>\<open>DiskStore.List\<close> over the bucket's pairs in key
  order: \<^verbatim>\<open>continue\<close> on a key without the prefix, \<^verbatim>\<open>break\<close> at the limit.\<close>

fun disk_list_loop ::
  "string \<Rightarrow> bool \<Rightarrow> int \<Rightarrow> bbucket \<Rightarrow> int \<Rightarrow> Entry list \<Rightarrow> Entry list" where
  "disk_list_loop pre hasLimit limit [] count entries = entries"
| "disk_list_loop pre hasLimit limit ((k, v) # rest) count entries =
     (if pre \<noteq> [] \<and> \<not> HasPrefix k pre then disk_list_loop pre hasLimit limit rest count entries
      else if hasLimit \<and> count \<ge> limit then entries
      else disk_list_loop pre hasLimit limit rest (count + 1)
             (entries @ [\<lparr>Key = k, Value = GBytes v\<rparr>]))"

definition DiskStore_List ::
  "engine_io \<Rightarrow> DiskStore \<Rightarrow> world \<Rightarrow> string \<Rightarrow> int \<Rightarrow> (error + Entry list) \<times> DiskStore \<times> world" where
  "DiskStore_List io s w pre limit =
     (case DiskStore_open io s w of
        (Some err, s1, w1) \<Rightarrow> (Inl (Wrap ''failed to open disk store'' err), s1, w1)
      | (None, s1, w1) \<Rightarrow>
          (case db_View (tx_fails io) (handle s1) w1
                  (\<lambda>tx. case tx_Bucket tx (bucket s1) of
                          None \<Rightarrow> Inl BucketNotFound
                        | Some b \<Rightarrow> Inr (disk_list_loop pre (limit > 0) limit b 0 [])) of
             Inl err \<Rightarrow> (Inl (Wrap ''unable to list entries from disk store'' err), s1, w1)
           | Inr entries \<Rightarrow> (Inr entries, s1, w1)))"

definition DiskStore_Close ::
  "engine_io \<Rightarrow> DiskStore \<Rightarrow> world \<Rightarrow> error option \<times> DiskStore \<times> world" where
  "DiskStore_Close io s w =
     (if \<not> opened s then (None, s, w)
      else
        (let newCount = refCount s - 1;
             s1 = s\<lparr>refCount := newCount\<rparr>
         in if newCount > 0 then (None, s1, w)
            else
              (case db_Close (close_fails io) (handle s1) w of
                 (Some err, h, w') \<Rightarrow> (Some err, s1\<lparr>handle := h\<rparr>, w')
               | (None, h, w') \<Rightarrow> (None, s1\<lparr>handle := h, opened := False\<rparr>, w'))))"

section \<open>Two callers inside \<^verbatim>\<open>open\<close>\<close>

text \<open>
  Store operations are issued from goroutines, so two callers can be inside
  \<^verbatim>\<open>open\<close> at once. A caller is at the lock-free look at \<^verbatim>\<open>s.opened\<close>
  (\<open>AtCheck\<close>), or has seen \<^verbatim>\<open>false\<close> there and goes for the lock (\<open>AtLock\<close>), or
  has returned. The locked part runs as one step: the mutex keeps other callers
  out of it.
\<close>

datatype open_pc = AtCheck | AtLock | Returned "error option"

record racing =
  r_store :: DiskStore
  r_world :: world
  r_pcs :: "open_pc list"

text \<open>Two callers enter \<^verbatim>\<open>open\<close> on a new store.\<close>

definition two_callers :: racing where
  "two_callers = \<lparr>r_store = NewDiskStore, r_world = no_files, r_pcs = [AtCheck, AtCheck]\<rparr>"

definition open_step :: "engine_io \<Rightarrow> nat \<Rightarrow> racing \<Rightarrow> racing" where
  "open_step io t r =
     (if t < length (r_pcs r) then
        (case r_pcs r ! t of
           AtCheck \<Rightarrow>
             (if opened (r_store r)
              then r\<lparr>r_store := (r_store r)\<lparr>refCount := refCount (r_store r) + 1\<rparr>,
                     r_pcs := (r_pcs r)[t := Returned None]\<rparr>
              else r\<lparr>r_pcs := (r_pcs r)[t := AtLock]\<rparr>)
         | AtLock \<Rightarrow>
             (case open_locked io (r_store r) (r_world r) of
                (res, s', w') \<Rightarrow>
                  \<lparr>r_store = s', r_world = w', r_pcs = (r_pcs r)[t := Returned res]\<rparr>)
         | Returned res \<Rightarrow> r)
      else r)"

definition open_schedule :: "engine_io \<Rightarrow> nat list \<Rightarrow> racing \<Rightarrow> racing" where
  "open_schedule io ts r = foldl (\<lambda>r' t. open_step io t r') r ts"

section \<open>Sequences of operations\<close>

datatype store_op =
    OpGet string
  | OpSet string gval
  | OpDelete string
  | OpExists string
  | OpClear
  | OpSize
  | OpList string int
  | OpClose

text \<open>One call: the error it returns, if any, and the state it leaves.\<close>

definition err_of :: "error + 'a \<Rightarrow> error option" where
  "err_of r = (case r of Inl e \<Rightarrow> Some e | Inr x \<Rightarrow> None)"

fun disk_apply :: "engine_io \<Rightarrow> store_op \<Rightarrow> DiskStore \<Rightarrow> world \<Rightarrow> error option \<times> DiskStore \<times> world" where
  "disk_apply io (OpGet k) s w = (case DiskStore_Get io s w k of (r, s', w') \<Rightarrow> (err_of r, s', w'))"
| "disk_apply io (OpSet k v) s w = DiskStore_Set io s w k v"
| "disk_apply io (OpDelete k) s w = DiskStore_Delete io s w k"
| "disk_apply io (OpExists k) s w = (case DiskStore_Exists io s w k of (r, s', w') \<Rightarrow> (err_of r, s', w'))"
| "disk_apply io OpClear s w = DiskStore_Clear io s w"
| "disk_apply io OpSize s w = (case DiskStore_Size io s w of (r, s', w') \<Rightarrow> (err_of r, s', w'))"
| "disk_apply io (OpList pre limit) s w =
     (case DiskStore_List io s w pre limit of (r, s', w') \<Rightarrow> (err_of r, s', w'))"
| "disk_apply io OpClose s w = DiskStore_Close io s w"

fun disk_run :: "(engine_io \<times> store_op) list \<Rightarrow> DiskStore \<times> world \<Rightarrow> DiskStore \<times> world" where
  "disk_run [] sw = sw"
| "disk_run ((io, op) # ops) sw = disk_run ops (snd (disk_apply io op (fst sw) (snd sw)))"

fun mem_apply :: "store_op \<Rightarrow> MemoryStore \<Rightarrow> error option \<times> MemoryStore" where
  "mem_apply (OpGet k) m = (err_of (MemoryStore_Get m k), m)"
| "mem_apply (OpSet k v) m = MemoryStore_Set m k v"
| "mem_apply (OpDelete k) m = MemoryStore_Delete m k"
| "mem_apply (OpExists k) m = (err_of (MemoryStore_Exists m k), m)"
| "mem_apply OpClear m = MemoryStore_Clear m"
| "mem_apply OpSize m = (err_of (MemoryStore_Size m), m)"
| "mem_apply (OpList pre limit) m = (err_of (MemoryStore_List m pre limit), m)"
| "mem_apply OpClose m = MemoryStore_Close m"

fun mem_run :: "store_op list \<Rightarrow> MemoryStore \<Rightarrow> MemoryStore" where
  "mem_run [] m = m"
| "mem_run (op # ops) m = mem_run ops (snd (mem_apply op m))"

section \<open>Serializers (kv/store/serializer.go)\<close>

text \<open>
  The \<^verbatim>\<open>Serializer\<close> interface is a record of its two methods.
  \<^verbatim>\<open>json.Marshal\<close> and \<^verbatim>\<open>json.Unmarshal\<close> belong to Go's standard library and
  are parameters of the JSON serializer: each yields its result or the text of its
  error.
\<close>

record Serializer =
  Serialize :: "gval \<Rightarrow> error + bytes"
  Deserialize :: "bytes \<Rightarrow> error + gval"

definition JSONSerializer_Serialize :: "(gval \<Rightarrow> string + bytes) \<Rightarrow> gval \<Rightarrow> error + bytes" where
  "JSONSerializer_Serialize marshal val =
     (case marshal val of
        Inl msg \<Rightarrow> Inl (Wrap ''unable to serialize value to JSON'' (CodecError msg))
      | Inr data \<Rightarrow> Inr data)"

definition JSONSerializer_Deserialize :: "(bytes \<Rightarrow> string + gval) \<Rightarrow> bytes \<Rightarrow> error + gval" where
  "JSONSerializer_Deserialize unmarshal data =
     (if length data = 0 then Inr GNil
      else (case unmarshal data of
              Inl msg \<Rightarrow> Inl (Wrap ''unable to deserialize JSON value'' (CodecError msg))
            | Inr val \<Rightarrow> Inr val))"

definition JSONSerializer :: "(gval \<Rightarrow> string + bytes) \<Rightarrow> (bytes \<Rightarrow> string + gval) \<Rightarrow> Serializer" where
  "JSONSerializer marshal unmarshal =
     \<lparr>Serialize = JSONSerializer_Serialize marshal,
      Deserialize = JSONSerializer_Deserialize unmarshal\<rparr>"

text \<open>
  \<^verbatim>\<open>fmt.Sprintf("%v", value)\<close> on the values of \<open>gval\<close>: decimal digits for an
  integer and for each byte of a byte slice, elements separated by one space,
  map entries in key order. \<open>GOther t\<close> is rendered by its name.
\<close>

function dec_nat :: "nat \<Rightarrow> string" where
  "dec_nat n =
     (if n < 10 then [char_of (48 + n)]
      else dec_nat (n div 10) @ [char_of (48 + n mod 10)])"
  by pat_completeness auto
termination
  by (relation "measure id") auto

declare dec_nat.simps [simp del]

definition dec_int :: "int \<Rightarrow> string" where
  "dec_int i = (if i < 0 then ''-'' @ dec_nat (nat (- i)) else dec_nat (nat i))"

fun join_sp :: "string list \<Rightarrow> string" where
  "join_sp [] = []"
| "join_sp [x] = x"
| "join_sp (x # y # ys) = x @ '' '' @ join_sp (y # ys)"

fun Sprint_v :: "gval \<Rightarrow> string" where
  "Sprint_v GNil = ''<nil>''"
| "Sprint_v (GBool b) = (if b then ''true'' else ''false'')"
| "Sprint_v (GInt i) = dec_int i"
| "Sprint_v (GString str) = str"
| "Sprint_v (GBytes bs) = ''['' @ join_sp (map (\<lambda>c. dec_nat (of_char c)) bs) @ '']''"
| "Sprint_v (GSlice vs) = ''['' @ join_sp (map Sprint_v vs) @ '']''"
| "Sprint_v (GMap kvs) =
     ''map['' @ join_sp (map (\<lambda>kv. fst kv @ '':'' @ Sprint_v (snd kv)) (sort_key fst kvs)) @ '']''"
| "Sprint_v (GOther t) = t"

definition StringSerializer_Serialize :: "gval \<Rightarrow> error + bytes" where
  "StringSerializer_Serialize val =
     (case val of
        GString str \<Rightarrow> Inr str
      | _ \<Rightarrow> Inr (Sprint_v val))"

definition StringSerializer_Deserialize :: "bytes \<Rightarrow> error + gval" where
  "StringSerializer_Deserialize data = Inr (GString data)"

definition StringSerializer :: Serializer where
  "StringSerializer =
     \<lparr>Serialize = StringSerializer_Serialize, Deserialize = StringSerializer_Deserialize\<rparr>"

section \<open>SerializedStore (kv/store/serialized_store.go)\<close>

text \<open>The \<^verbatim>\<open>Store\<close> interface with its two implementations; a disk store comes
  with the files it works on.\<close>

datatype Store = MemoryBackend MemoryStore | DiskBackend DiskStore world


fun Store_Set :: "engine_io \<Rightarrow> Store \<Rightarrow> string \<Rightarrow> gval \<Rightarrow> error option \<times> Store" where
  "Store_Set io (MemoryBackend m) key val =
     (case MemoryStore_Set m key val of (r, m') \<Rightarrow> (r, MemoryBackend m'))"
| "Store_Set io (DiskBackend s w) key val =
     (case DiskStore_Set io s w key val of (r, s', w') \<Rightarrow> (r, DiskBackend s' w'))"

record SerializedStore =
  store :: Store
  serializer :: Serializer

definition NewSerializedStore :: "Store \<Rightarrow> Serializer \<Rightarrow> SerializedStore" where
  "NewSerializedStore st ser = \<lparr>store = st, serializer = ser\<rparr>"


definition SerializedStore_Set ::
  "engine_io \<Rightarrow> SerializedStore \<Rightarrow> string \<Rightarrow> gval \<Rightarrow> error option \<times> SerializedStore" where
  "SerializedStore_Set io ss key val =
     (case Serialize (serializer ss) val of
        Inl err \<Rightarrow> (Some (Wrap ''failed to serialize value'' err), ss)
      | Inr serializedValue \<Rightarrow>
          (case Store_Set io (store ss) key (GBytes serializedValue) of
             (r, st) \<Rightarrow> (r, ss\<lparr>store := st\<rparr>)))"

section \<open>Notions the properties are stated with\<close>

text \<open>The value kinds a backend stores: a raw byte sequence or text.\<close>

definition as_bytes :: "gval \<Rightarrow> bytes option" where
  "as_bytes v = (case v of GBytes d \<Rightarrow> Some d | GString d \<Rightarrow> Some d | _ \<Rightarrow> None)"

text \<open>The keys and values the engine's \<^verbatim>\<open>Put\<close> takes.\<close>

definition engine_accepts :: "string \<Rightarrow> bytes \<Rightarrow> bool" where
  "engine_accepts k d = (k \<noteq> [] \<and> length k \<le> MaxKeySize \<and> length d \<le> MaxValueSize)"

text \<open>Whether an error is, or wraps, the "bucket not found" error, and the same
  for the "unsupported value type" error.\<close>

fun bucket_missing :: "error \<Rightarrow> bool" where
  "bucket_missing BucketNotFound = True"
| "bucket_missing (Wrap ctx e) = bucket_missing e"
| "bucket_missing e = False"

fun unsupported_type :: "error \<Rightarrow> bool" where
  "unsupported_type (UnsupportedValueType v) = True"
| "unsupported_type (Wrap ctx e) = unsupported_type e"
| "unsupported_type e = False"

text \<open>The bucket an open store reads and writes: the one named \<open>bucket s\<close> in the
  file its handle is open on.\<close>

definition live_bucket :: "DiskStore \<Rightarrow> world \<Rightarrow> bbucket" where
  "live_bucket s w =
     (case handle s of
        None \<Rightarrow> []
      | Some p \<Rightarrow>
          (case files w p of
             None \<Rightarrow> []
           | Some f \<Rightarrow> (case tx_Bucket f (bucket s) of None \<Rightarrow> [] | Some b \<Rightarrow> b)))"

text \<open>
  The engine's key order: every bucket of every file holds its keys in strictly
  ascending order.
\<close>

definition files_sorted :: "world \<Rightarrow> bool" where
  "files_sorted w =
     (\<forall>p f n b. files w p = Some f \<longrightarrow> (n, b) \<in> set f \<longrightarrow> sorted_wrt (<) (map fst b))"

text \<open>
  The states of a disk store and its files that the operations keep to: the store
  is marked open exactly when its handle is open, and an open handle is on an
  existing file that has the store's bucket.
\<close>

definition disk_inv :: "DiskStore \<Rightarrow> world \<Rightarrow> bool" where
  "disk_inv s w =
     ((opened s \<longleftrightarrow> handle s \<noteq> None) \<and>
      (\<forall>p. handle s = Some p \<longrightarrow> (\<exists>f. files w p = Some f \<and> tx_Bucket f (bucket s) \<noteq> None)))"


text \<open>
  What a listing of the live entries \<open>m\<close> is: the entries whose key starts with
  the prefix, each once, in ascending key order, cut to the first \<open>limit\<close> of them
  when the limit is positive.
\<close>

definition is_listing :: "(string \<Rightarrow> bytes option) \<Rightarrow> string \<Rightarrow> int \<Rightarrow> Entry list \<Rightarrow> bool" where
  "is_listing m pre limit es =
     (\<exists>full. sorted_wrt (<) (map Key full) \<and>
             set full = {\<lparr>Key = k, Value = GBytes v\<rparr> |k v. m k = Some v \<and> HasPrefix k pre} \<and>
             es = (if limit > 0 then take (nat limit) full else full))"

text \<open>
  What a history of calls says about a key. The calls that change whether \<open>k\<close> is
  stored are a \<^verbatim>\<open>Set\<close> of \<open>k\<close> that the backend carries out (bytes or text, and a
  key and value that the backend \<open>takes\<close>), a \<^verbatim>\<open>Delete\<close> of \<open>k\<close>, and \<^verbatim>\<open>Clear\<close>.
  The history leaves \<open>k\<close> present when the last of these is a \<^verbatim>\<open>Set\<close>.
\<close>

fun changes_key :: "(string \<Rightarrow> bytes \<Rightarrow> bool) \<Rightarrow> string \<Rightarrow> store_op \<Rightarrow> bool" where
  "changes_key takes k (OpSet k' v) =
     (k' = k \<and> (case as_bytes v of None \<Rightarrow> False | Some d \<Rightarrow> takes k d))"
| "changes_key takes k (OpDelete k') = (k' = k)"
| "changes_key takes k OpClear = True"
| "changes_key takes k op = False"

definition never_set :: "string \<Rightarrow> store_op list \<Rightarrow> bool" where
  "never_set k ops = (\<forall>v. OpSet k v \<notin> set ops)"

definition last_change ::
  "(string \<Rightarrow> bytes \<Rightarrow> bool) \<Rightarrow> string \<Rightarrow> store_op list \<Rightarrow> store_op option" where
  "last_change takes k ops =
     (case filter (changes_key takes k) ops of [] \<Rightarrow> None | c # cs \<Rightarrow> Some (last (c # cs)))"

definition left_present :: "(string \<Rightarrow> bytes \<Rightarrow> bool) \<Rightarrow> string \<Rightarrow> store_op list \<Rightarrow> bool" where
  "left_present takes k ops =
     (case last_change takes k ops of Some (OpSet k' v) \<Rightarrow> True | _ \<Rightarrow> False)"

text \<open>The memory store takes every key and value.\<close>

definition memory_takes :: "string \<Rightarrow> bytes \<Rightarrow> bool" where
  "memory_takes k d = True"

text \<open>A history run on a disk store whose engine reports no failure.\<close>

definition without_failures :: "store_op list \<Rightarrow> (engine_io \<times> store_op) list" where
  "without_failures ops = map (\<lambda>op. (io_ok, op)) ops"

text \<open>The store's bucket in the database file at the default path, and the states
  of a store that works on that file.\<close>

definition file_bucket :: "world \<Rightarrow> bbucket" where
  "file_bucket w =
     (case files w DefaultDiskStorePath of
        None \<Rightarrow> []
      | Some f \<Rightarrow> (case tx_Bucket f DefaultDiskStorePath of None \<Rightarrow> [] | Some b \<Rightarrow> b))"

definition disk_home :: "DiskStore \<Rightarrow> world \<Rightarrow> bool" where
  "disk_home s w =
     (disk_inv s w \<and> path s = DefaultDiskStorePath \<and>
      (opened s \<longrightarrow> handle s = Some DefaultDiskStorePath \<and> bucket s = DefaultDiskStorePath))"

section \<open>The engine's buckets\<close>

lemma set_bucket_insert: "set (bucket_insert b k v) \<subseteq> insert (k, v) (set b)"
  by (induction b k v rule: bucket_insert.induct) auto

lemma sorted_bucket_insert:
  "sorted_wrt (<) (map fst b) \<Longrightarrow> sorted_wrt (<) (map fst (bucket_insert b k v))"
proof (induction b k v rule: bucket_insert.induct)
  case (1 k v)
  then show ?case by simp
next
  case (2 k' v' rest k v)
  show ?case
  proof (cases "k = k' \<or> k < k'")
    case True
    with 2 show ?thesis by auto
  next
    case False
    then have lt: "k' < k" by auto
    have "\<forall>x\<in>set (bucket_insert rest k v). k' < fst x"
    proof
      fix x assume "x \<in> set (bucket_insert rest k v)"
      then have "x = (k, v) \<or> x \<in> set rest" using set_bucket_insert by fastforce
      then show "k' < fst x" using lt "2.prems" by auto
    qed
    with 2 False show ?thesis by simp
  qed
qed

lemma foldl_delete_filter:
  "foldl (\<lambda>acc kv. bucket_Delete acc (fst kv)) b xs = filter (\<lambda>kv. fst kv \<notin> fst ` set xs) b"
proof (induction xs arbitrary: b)
  case Nil
  then show ?case by simp
next
  case (Cons x xs)
  have "filter (\<lambda>kv. fst kv \<notin> fst ` set xs) (bucket_Delete b (fst x))
        = filter (\<lambda>kv. fst kv \<notin> fst ` set (x # xs)) b"
    unfolding bucket_Delete_def filter_filter by (rule filter_cong) auto
  with Cons.IH show ?case by simp
qed

lemma clear_all: "foldl (\<lambda>acc kv. bucket_Delete acc (fst kv)) b b = []"
  by (simp add: foldl_delete_filter filter_empty_conv)

lemma map_of_bucket_insert: "map_of (bucket_insert b k v) = (map_of b)(k \<mapsto> v)"
  by (induction b k v rule: bucket_insert.induct) (auto simp: fun_eq_iff)

lemma sorted_bucket_Delete:
  "sorted_wrt (<) (map fst b) \<Longrightarrow> sorted_wrt (<) (map fst (bucket_Delete b k))"
  unfolding bucket_Delete_def by (induction b) auto

lemma map_of_bucket_Delete: "map_of (bucket_Delete b k) = (map_of b)(k := None)"
  unfolding bucket_Delete_def by (induction b) (auto simp: fun_eq_iff)

section \<open>Opening, and the transactions on an open store\<close>

lemma files_sorted_upd:
  "files_sorted w \<Longrightarrow> (\<And>n b. (n, b) \<in> set f \<Longrightarrow> sorted_wrt (<) (map fst b)) \<Longrightarrow>
   files_sorted (w\<lparr>files := (files w)(p \<mapsto> f)\<rparr>)"
  unfolding files_sorted_def by auto

lemma files_sorted_eq: "files w' = files w \<Longrightarrow> files_sorted w' = files_sorted w"
  unfolding files_sorted_def by simp

lemma files_sorted_held [simp]: "files_sorted (w\<lparr>held := h\<rparr>) = files_sorted w"
  unfolding files_sorted_def by simp

lemma disk_inv_held [simp]: "disk_inv s (w\<lparr>held := h\<rparr>) = disk_inv s w"
  unfolding disk_inv_def by simp

lemma live_bucket_held [simp]: "live_bucket s (w\<lparr>held := h\<rparr>) = live_bucket s w"
  by (simp add: live_bucket_def split: option.splits)

lemma live_bucket_refCount [simp]: "live_bucket (s\<lparr>refCount := n\<rparr>) w = live_bucket s w"
  by (simp add: live_bucket_def split: option.splits)

lemma files_sorted_file:
  "files_sorted w \<Longrightarrow> files w p = Some f \<Longrightarrow> (n, b) \<in> set f \<Longrightarrow> sorted_wrt (<) (map fst b)"
  unfolding files_sorted_def by blast

lemma create_bucket_has: "tx_Bucket (tx_CreateBucketIfNotExists f name) name \<noteq> None"
  unfolding tx_Bucket_def tx_CreateBucketIfNotExists_def
  by (auto simp: map_add_def split: option.splits)

lemma create_bucket_idem:
  "tx_Bucket f name \<noteq> None \<Longrightarrow> tx_CreateBucketIfNotExists f name = f"
  unfolding tx_Bucket_def tx_CreateBucketIfNotExists_def by auto

lemma create_bucket_set:
  "(n, b) \<in> set (tx_CreateBucketIfNotExists f name) \<Longrightarrow> (n, b) \<in> set f \<or> b = []"
  unfolding tx_CreateBucketIfNotExists_def by (auto split: option.splits)

text \<open>What the locked part of \<^verbatim>\<open>open\<close> does on a store not marked open. \<open>w1\<close>
  is the world once \<^verbatim>\<open>bolt.Open\<close> has returned the handler.\<close>

lemma open_locked_closed:
  assumes "\<not> opened s"
  shows "open_locked io s w =
     (if open_fails io then (Some ErrOpenFailed, s, w)
      else let f = (case files w (path s) of None \<Rightarrow> [] | Some f \<Rightarrow> f);
               w1 = w\<lparr>files := (files w)(path s \<mapsto> f),
                      held := (held w)(path s := held w (path s) + 1)\<rparr>
           in if commit_fails io then (Some ErrTxFailed, s, w1)
              else if create_fails io
                then (Some (Wrap ''failed to create internal bucket'' ErrBucketCreate), s, w1)
                else (None,
                      s\<lparr>handle := Some (path s), bucket := DefaultDiskStorePath,
                        opened := True, refCount := refCount s + 1\<rparr>,
                      w1\<lparr>files := (files w)(path s \<mapsto>
                                   tx_CreateBucketIfNotExists f DefaultDiskStorePath)\<rparr>))"
proof (cases "files w (path s)")
  case None
  with assms show ?thesis
    unfolding open_locked_def bolt_Open_def db_Update_def by (simp add: Let_def)
next
  case (Some f)
  then have "(files w)(path s \<mapsto> f) = files w" by (simp add: map_upd_triv)
  with assms Some show ?thesis
    unfolding open_locked_def bolt_Open_def db_Update_def by (simp add: Let_def)
qed

lemma open_locked_inv:
  assumes "disk_inv s w" and "open_locked io s w = (r, s1, w1)"
  shows "disk_inv s1 w1"
proof (cases "opened s")
  case True
  with assms show ?thesis by (simp add: open_locked_def)
next
  case False
  have hn: "handle s = None" using False assms(1) by (simp add: disk_inv_def)
  show ?thesis
    using assms(2) hn create_bucket_has False
    unfolding open_locked_closed [OF False]
    by (auto simp: disk_inv_def Let_def split: if_splits)
qed

lemma open_locked_sorted:
  assumes "files_sorted w" and "open_locked io s w = (r, s1, w1)"
  shows "files_sorted w1"
proof (cases "opened s")
  case True
  with assms show ?thesis by (simp add: open_locked_def)
next
  case False
  let ?f = "case files w (path s) of None \<Rightarrow> [] | Some f \<Rightarrow> f"
  have f: "\<And>n b. (n, b) \<in> set ?f \<Longrightarrow> sorted_wrt (<) (map fst b)"
    using assms(1) by (auto split: option.splits dest: files_sorted_file [OF _ sym])
  have srt: "\<And>n b. (n, b) \<in> set (tx_CreateBucketIfNotExists ?f DefaultDiskStorePath)
               \<Longrightarrow> sorted_wrt (<) (map fst b)"
    using f by (auto dest!: create_bucket_set)
  have a: "files_sorted (w\<lparr>files := (files w)(path s \<mapsto> ?f)\<rparr>)"
    using assms(1) f by (rule files_sorted_upd)
  have b: "files_sorted (w\<lparr>files := (files w)(path s \<mapsto>
              tx_CreateBucketIfNotExists ?f DefaultDiskStorePath)\<rparr>)"
    using assms(1) srt by (rule files_sorted_upd)
  have "files w1 = files w \<or> files w1 = (files w)(path s \<mapsto> ?f)
        \<or> files w1 = (files w)(path s \<mapsto> tx_CreateBucketIfNotExists ?f DefaultDiskStorePath)"
    using assms(2) unfolding open_locked_closed [OF False]
    by (auto simp: Let_def split: if_splits)
  then show ?thesis
  proof (elim disjE)
    assume "files w1 = files w"
    from files_sorted_eq [OF this] assms(1) show ?thesis by simp
  next
    assume "files w1 = (files w)(path s \<mapsto> ?f)"
    then have "files w1 = files (w\<lparr>files := (files w)(path s \<mapsto> ?f)\<rparr>)" by simp
    from files_sorted_eq [OF this] a show ?thesis by simp
  next
    assume "files w1 = (files w)(path s \<mapsto> tx_CreateBucketIfNotExists ?f DefaultDiskStorePath)"
    then have "files w1 = files (w\<lparr>files := (files w)(path s \<mapsto>
                 tx_CreateBucketIfNotExists ?f DefaultDiskStorePath)\<rparr>)" by simp
    from files_sorted_eq [OF this] b show ?thesis by simp
  qed
qed

lemma open_inv:
  assumes "disk_inv s w" and "DiskStore_open io s w = (r, s1, w1)"
  shows "disk_inv s1 w1"
proof (cases "opened s")
  case True
  with assms show ?thesis by (auto simp: DiskStore_open_def disk_inv_def)
next
  case False
  with assms show ?thesis by (auto simp: DiskStore_open_def intro: open_locked_inv)
qed

lemma open_sorted:
  assumes "files_sorted w" and "DiskStore_open io s w = (r, s1, w1)"
  shows "files_sorted w1"
  using assms by (auto simp: DiskStore_open_def split: if_splits intro: open_locked_sorted)

lemma open_shape:
  assumes "disk_inv s w" and "DiskStore_open io s w = (r, s1, w1)"
  shows "(r = None \<and> opened s1 \<and> refCount s1 = refCount s + 1 \<and> path s1 = path s)
         \<or> (r \<noteq> None \<and> s1 = s \<and> \<not> opened s)"
proof (cases "opened s")
  case True
  with assms show ?thesis by (auto simp: DiskStore_open_def)
next
  case False
  with assms(2) show ?thesis
    unfolding DiskStore_open_def open_locked_closed [OF False]
    by (auto simp: Let_def split: if_splits)
qed

lemma open_io_ok:
  "\<exists>s1 w1. DiskStore_open io_ok s w = (None, s1, w1)"
proof (cases "opened s")
  case True
  then show ?thesis by (simp add: DiskStore_open_def)
next
  case False
  then show ?thesis
    unfolding DiskStore_open_def open_locked_closed [OF False]
    by (simp add: Let_def io_ok_def)
qed

lemma open_fresh:
  assumes "\<not> opened s" and "DiskStore_open io s w = (None, s1, w1)"
  shows "s1 = s\<lparr>handle := Some (path s), bucket := DefaultDiskStorePath,
                opened := True, refCount := refCount s + 1\<rparr>"
    and "w1 = w\<lparr>files := (files w)(path s \<mapsto> tx_CreateBucketIfNotExists
                    (case files w (path s) of None \<Rightarrow> [] | Some f \<Rightarrow> f) DefaultDiskStorePath),
                held := (held w)(path s := held w (path s) + 1)\<rparr>"
  using assms unfolding DiskStore_open_def open_locked_closed [OF assms(1)]
  by (auto simp: Let_def split: if_splits)

lemma open_again:
  assumes "opened s"
  shows "DiskStore_open io s w = (None, s\<lparr>refCount := refCount s + 1\<rparr>, w)"
  using assms by (simp add: DiskStore_open_def)

lemma tx_store_has: "tx_Bucket f name \<noteq> None \<Longrightarrow> tx_Bucket (tx_store f name b) name = Some b"
  unfolding tx_Bucket_def tx_store_def by (induction f) auto

lemma tx_store_set: "(n, b') \<in> set (tx_store f name b) \<Longrightarrow> (n, b') \<in> set f \<or> b' = b"
  unfolding tx_store_def by (auto split: if_splits)

lemma live_bucket_open:
  assumes "disk_inv s w" and "opened s"
  obtains p f where "handle s = Some p" and "files w p = Some f"
    and "tx_Bucket f (bucket s) = Some (live_bucket s w)"
  using assms unfolding disk_inv_def live_bucket_def by fastforce

lemma view_live:
  assumes "disk_inv s w" and "opened s"
  shows "db_View fails (handle s) w
           (\<lambda>tx. case tx_Bucket tx (bucket s) of None \<Rightarrow> Inl BucketNotFound | Some b \<Rightarrow> Inr (g b))
         = (if fails then Inl ErrTxFailed else Inr (g (live_bucket s w)))"
proof -
  obtain p f where "handle s = Some p" "files w p = Some f"
    "tx_Bucket f (bucket s) = Some (live_bucket s w)"
    using assms by (rule live_bucket_open)
  then show ?thesis by (simp add: db_View_def)
qed

text \<open>A write transaction on an open store: it fails as a whole, or the change
  is refused and nothing is written, or the changed bucket replaces the old one.\<close>

lemma bucket_tx_live:
  assumes inv: "disk_inv s w" and op: "opened s"
  shows "\<exists>w'. bucket_tx io s w ctx change =
                 (if tx_fails io then Some (Wrap ctx ErrTxFailed)
                  else (case change (live_bucket s w) of
                          Inl e \<Rightarrow> Some (Wrap ctx e) | Inr b' \<Rightarrow> None), s, w')
              \<and> disk_inv s w' \<and> held w' = held w
              \<and> live_bucket s w' =
                  (if tx_fails io then live_bucket s w
                   else (case change (live_bucket s w) of
                           Inl e \<Rightarrow> live_bucket s w | Inr b' \<Rightarrow> b'))"
proof -
  obtain p f where h: "handle s = Some p" and wp: "files w p = Some f"
    and b: "tx_Bucket f (bucket s) = Some (live_bucket s w)"
    using inv op by (rule live_bucket_open)
  show ?thesis
  proof (cases "tx_fails io")
    case True
    then show ?thesis using h wp inv by (simp add: bucket_tx_def db_Update_def)
  next
    case False
    show ?thesis
    proof (cases "change (live_bucket s w)")
      case (Inl e)
      then show ?thesis using False h wp b inv by (simp add: bucket_tx_def db_Update_def)
    next
      case (Inr b')
      let ?f' = "tx_store f (bucket s) b'"
      let ?w' = "w\<lparr>files := (files w)(p \<mapsto> ?f')\<rparr>"
      have run: "bucket_tx io s w ctx change = (None, s, ?w')"
        using False h wp b Inr by (simp add: bucket_tx_def db_Update_def)
      have has: "tx_Bucket ?f' (bucket s) = Some b'"
        using b by (simp add: tx_store_has)
      have "disk_inv s ?w'"
        using inv h has by (simp add: disk_inv_def)
      moreover have "live_bucket s ?w' = b'"
        using h has by (simp add: live_bucket_def)
      ultimately show ?thesis using run False Inr by simp
    qed
  qed
qed

lemma bucket_tx_sorted:
  assumes fs: "files_sorted w"
    and srt: "\<And>b b'. sorted_wrt (<) (map fst b) \<Longrightarrow> change b = Inr b' \<Longrightarrow>
                sorted_wrt (<) (map fst b')"
    and run: "bucket_tx io s w ctx change = (r, s', w')"
  shows "files_sorted w'"
proof (cases "r")
  case (Some e)
  with run have "w' = w"
    unfolding bucket_tx_def db_Update_def
    by (auto split: option.splits if_splits sum.splits prod.splits)
  with fs show ?thesis by simp
next
  case None
  with run obtain p f b b' where "handle s = Some p" and wp: "files w p = Some f"
    and b: "tx_Bucket f (bucket s) = Some b" and ch: "change b = Inr b'"
    and w': "w' = w\<lparr>files := (files w)(p \<mapsto> tx_store f (bucket s) b')\<rparr>"
    unfolding bucket_tx_def db_Update_def
    by (auto split: option.splits if_splits sum.splits prod.splits)
  have "(bucket s, b) \<in> set f"
    using b unfolding tx_Bucket_def by (rule map_of_SomeD)
  then have "sorted_wrt (<) (map fst b)" using fs wp by (rule files_sorted_file [rotated 2])
  then have "sorted_wrt (<) (map fst b')" using ch by (rule srt)
  then have "\<And>n b''. (n, b'') \<in> set (tx_store f (bucket s) b') \<Longrightarrow> sorted_wrt (<) (map fst b'')"
    using fs wp by (auto dest!: tx_store_set dest: files_sorted_file)
  then show ?thesis unfolding w' using fs by (auto intro: files_sorted_upd)
qed

lemma open_error_kind:
  assumes "DiskStore_open io s w = (Some e, s1, w1)"
  shows "\<not> bucket_missing e \<and> \<not> unsupported_type e"
proof (cases "opened s")
  case True
  with assms show ?thesis by (simp add: DiskStore_open_def)
next
  case False
  with assms show ?thesis
    unfolding DiskStore_open_def open_locked_closed [OF False]
    by (auto simp: Let_def split: if_splits)
qed

lemma open_opened:
  assumes "disk_inv s w" and "DiskStore_open io s w = (None, s1, w1)"
  shows "disk_inv s1 w1" and "opened s1"
  using assms open_inv open_shape by blast+

lemma Get_after_open:
  assumes "disk_inv s w" and "DiskStore_open io s w = (None, s1, w1)"
  shows "DiskStore_Get io s w k =
     ((if tx_fails io then Inl (Wrap ''unable to get value from disk store'' ErrTxFailed)
       else (case map_of (live_bucket s1 w1) k of
               None \<Rightarrow> Inl (KeyNotFound k)
             | Some v \<Rightarrow> Inr (GBytes v))), s1, w1)"
  using assms(2) open_opened [OF assms]
  by (simp add: DiskStore_Get_def view_live bucket_Get_def split: option.splits)

lemma Exists_after_open:
  assumes "disk_inv s w" and "DiskStore_open io s w = (None, s1, w1)"
  shows "DiskStore_Exists io s w k =
     ((if tx_fails io then Inl (Wrap ''unable to check if key exists in disk store'' ErrTxFailed)
       else Inr (map_of (live_bucket s1 w1) k \<noteq> None)), s1, w1)"
  using assms(2) open_opened [OF assms]
  by (simp add: DiskStore_Exists_def view_live bucket_Get_def)

lemma Size_after_open:
  assumes "disk_inv s w" and "DiskStore_open io s w = (None, s1, w1)"
  shows "DiskStore_Size io s w =
     ((if tx_fails io then Inl (Wrap ''unable to get size of disk store'' ErrTxFailed)
       else Inr (int (length (live_bucket s1 w1)))), s1, w1)"
  using assms(2) open_opened [OF assms]
  by (simp add: DiskStore_Size_def view_live)

lemma List_after_open:
  assumes "disk_inv s w" and "DiskStore_open io s w = (None, s1, w1)"
  shows "DiskStore_List io s w pre limit =
     ((if tx_fails io then Inl (Wrap ''unable to list entries from disk store'' ErrTxFailed)
       else Inr (disk_list_loop pre (limit > 0) limit (live_bucket s1 w1) 0 [])), s1, w1)"
  using assms(2) open_opened [OF assms]
  by (simp add: DiskStore_List_def view_live)

lemma Set_after_open:
  assumes "disk_inv s w" and "DiskStore_open io s w = (None, s1, w1)"
  shows "\<exists>w2. DiskStore_Set io s w k v =
            ((case as_bytes v of
                None \<Rightarrow> Some (UnsupportedValueType v)
              | Some d \<Rightarrow>
                  if tx_fails io
                  then Some (Wrap ''unable to insert value into disk store'' ErrTxFailed)
                  else (case bucket_Put (live_bucket s1 w1) k d of
                          Inl e \<Rightarrow> Some (Wrap ''unable to insert value into disk store'' e)
                        | Inr b' \<Rightarrow> None)), s1, w2)
          \<and> disk_inv s1 w2 \<and> held w2 = held w1
          \<and> live_bucket s1 w2 =
              (case as_bytes v of
                 None \<Rightarrow> live_bucket s1 w1
               | Some d \<Rightarrow>
                   if tx_fails io then live_bucket s1 w1
                   else (case bucket_Put (live_bucket s1 w1) k d of
                           Inl e \<Rightarrow> live_bucket s1 w1
                         | Inr b' \<Rightarrow> b'))"
proof (cases "as_bytes v")
  case None
  then show ?thesis
    using assms(2) open_opened [OF assms]
    by (cases v) (simp_all add: DiskStore_Set_def as_bytes_def)
next
  case (Some d)
  have tx: "\<exists>w2. bucket_tx io s1 w1 ''unable to insert value into disk store''
                   (\<lambda>b. bucket_Put b k d) =
                 (if tx_fails io
                  then Some (Wrap ''unable to insert value into disk store'' ErrTxFailed)
                  else (case bucket_Put (live_bucket s1 w1) k d of
                          Inl e \<Rightarrow> Some (Wrap ''unable to insert value into disk store'' e)
                        | Inr b' \<Rightarrow> None), s1, w2)
              \<and> disk_inv s1 w2 \<and> held w2 = held w1
              \<and> live_bucket s1 w2 =
                  (if tx_fails io then live_bucket s1 w1
                   else (case bucket_Put (live_bucket s1 w1) k d of
                           Inl e \<Rightarrow> live_bucket s1 w1
                         | Inr b' \<Rightarrow> b'))"
    using open_opened [OF assms] by (intro bucket_tx_live)
  from Some have "v = GBytes d \<or> v = GString d"
    by (cases v) (simp_all add: as_bytes_def)
  then show ?thesis
    using tx assms(2) Some by (auto simp: DiskStore_Set_def)
qed

lemma Delete_after_open:
  assumes "disk_inv s w" and "DiskStore_open io s w = (None, s1, w1)"
  shows "\<exists>w2. DiskStore_Delete io s w k =
            (if tx_fails io
             then Some (Wrap ''unable to delete value from disk store'' ErrTxFailed)
             else None, s1, w2)
          \<and> disk_inv s1 w2 \<and> held w2 = held w1
          \<and> live_bucket s1 w2 =
              (if tx_fails io then live_bucket s1 w1 else bucket_Delete (live_bucket s1 w1) k)"
proof -
  from bucket_tx_live [OF open_opened [OF assms], of io
         "''unable to delete value from disk store''" "\<lambda>b. Inr (bucket_Delete b k)"]
  show ?thesis using assms(2)
    by (cases "tx_fails io") (simp_all add: DiskStore_Delete_def)
qed

lemma Clear_after_open:
  assumes "disk_inv s w" and "DiskStore_open io s w = (None, s1, w1)"
  shows "\<exists>w2. DiskStore_Clear io s w =
            (if tx_fails io
             then Some (Wrap ''unable to clear disk store'' ErrTxFailed)
             else None, s1, w2)
          \<and> disk_inv s1 w2 \<and> held w2 = held w1
          \<and> live_bucket s1 w2 = (if tx_fails io then live_bucket s1 w1 else [])"
proof -
  from bucket_tx_live [OF open_opened [OF assms], of io
         "''unable to clear disk store''"
         "\<lambda>b. Inr (foldl (\<lambda>acc kv. bucket_Delete acc (fst kv)) b b)"]
  show ?thesis using assms(2)
    by (cases "tx_fails io") (simp_all add: DiskStore_Clear_def clear_all)
qed

section \<open>Sequences of operations keep the store consistent\<close>

lemma apply_open_failed:
  assumes "DiskStore_open io s w = (Some e, s1, w1)" and "op \<noteq> OpClose"
  shows "disk_apply io op s w = (Some (Wrap ''failed to open disk store'' e), s1, w1)"
  using assms
  by (cases op)
     (simp_all add: DiskStore_Get_def DiskStore_Set_def DiskStore_Delete_def DiskStore_Exists_def
        DiskStore_Clear_def DiskStore_Size_def DiskStore_List_def err_of_def)

lemma Put_error_kind:
  "bucket_Put b k d = Inl e \<Longrightarrow> \<not> bucket_missing e \<and> \<not> unsupported_type e"
  by (auto simp: bucket_Put_def split: if_splits)

lemma apply_after_open:
  assumes inv: "disk_inv s w" and op: "DiskStore_open io s w = (None, s1, w1)"
    and nc: "op \<noteq> OpClose"
  shows "\<exists>r w2. disk_apply io op s w = (r, s1, w2) \<and> disk_inv s1 w2
               \<and> (\<forall>e. r = Some e \<longrightarrow> \<not> bucket_missing e)"
proof (cases op)
  case (OpGet k)
  then show ?thesis
    using Get_after_open [OF inv op, of k] open_opened(1) [OF inv op]
    by (auto simp: err_of_def split: option.splits)
next
  case (OpSet k v)
  then show ?thesis
    using Set_after_open [OF inv op, of k v]
    by (auto split: option.splits if_splits sum.splits dest: Put_error_kind)
next
  case (OpDelete k)
  then show ?thesis
    using Delete_after_open [OF inv op, of k]
    by (auto split: if_splits)
next
  case (OpExists k)
  then show ?thesis
    using Exists_after_open [OF inv op, of k] open_opened(1) [OF inv op]
    by (auto simp: err_of_def)
next
  case OpClear
  then show ?thesis
    using Clear_after_open [OF inv op]
    by (auto split: if_splits)
next
  case OpSize
  then show ?thesis
    using Size_after_open [OF inv op] open_opened(1) [OF inv op]
    by (auto simp: err_of_def)
next
  case (OpList pre limit)
  then show ?thesis
    using List_after_open [OF inv op, of pre limit] open_opened(1) [OF inv op]
    by (auto simp: err_of_def)
next
  case OpClose
  with nc show ?thesis by simp
qed


lemma apply_not_close:
  assumes inv: "disk_inv s w" and nc: "op \<noteq> OpClose"
    and run: "disk_apply io op s w = (r, s', w')"
  shows "\<exists>r0 w1. DiskStore_open io s w = (r0, s', w1)"
    and "disk_inv s' w'"
    and "\<And>e. r = Some e \<Longrightarrow> \<not> bucket_missing e"
proof -
  obtain r0 s1 w1 where op: "DiskStore_open io s w = (r0, s1, w1)"
    by (metis prod_cases3)
  have all: "s1 = s' \<and> disk_inv s' w' \<and> (\<forall>e. r = Some e \<longrightarrow> \<not> bucket_missing e)"
  proof (cases r0)
    case None
    from apply_after_open [OF inv op [unfolded None] nc]
    obtain r' w2 where "disk_apply io op s w = (r', s1, w2)" and "disk_inv s1 w2"
      and "\<forall>e. r' = Some e \<longrightarrow> \<not> bucket_missing e" by blast
    with run show ?thesis by simp
  next
    case (Some e)
    have "disk_apply io op s w = (Some (Wrap ''failed to open disk store'' e), s1, w1)"
      using apply_open_failed [OF op [unfolded Some] nc] .
    moreover have "\<not> bucket_missing e" using open_error_kind [OF op [unfolded Some]] by simp
    moreover have "disk_inv s1 w1" using open_inv [OF inv op] .
    ultimately show ?thesis using run by auto
  qed
  from all op show "\<exists>r0 w1. DiskStore_open io s w = (r0, s', w1)" by blast
  from all show "disk_inv s' w'" by simp
  from all show "\<And>e. r = Some e \<Longrightarrow> \<not> bucket_missing e" by simp
qed

lemma Close_cases:
  "DiskStore_Close io s w =
     (if \<not> opened s then (None, s, w)
      else if 1 < refCount s then (None, s\<lparr>refCount := refCount s - 1\<rparr>, w)
      else if close_fails io then (Some ErrCloseFailed, s\<lparr>refCount := refCount s - 1\<rparr>, w)
      else (None, s\<lparr>refCount := refCount s - 1, handle := None, opened := False\<rparr>,
            case handle s of
              None \<Rightarrow> w
            | Some p \<Rightarrow> w\<lparr>held := (held w)(p := held w p - 1)\<rparr>))"
  by (auto simp: DiskStore_Close_def db_Close_def Let_def)

lemma Close_inv:
  assumes "disk_inv s w" and "DiskStore_Close io s w = (r, s', w')"
  shows "disk_inv s' w'" and "\<And>e. r = Some e \<Longrightarrow> \<not> bucket_missing e"
  using assms unfolding Close_cases
  by (auto simp: disk_inv_def split: if_splits option.splits)

lemma apply_inv:
  assumes "disk_inv s w" and "disk_apply io op s w = (r, s', w')"
  shows "disk_inv s' w'" and "\<And>e. r = Some e \<Longrightarrow> \<not> bucket_missing e"
proof -
  show "disk_inv s' w'"
  proof (cases "op = OpClose")
    case True
    with assms Close_inv(1) show ?thesis by simp
  next
    case False
    from apply_not_close(2) [OF assms(1) False assms(2)] show ?thesis .
  qed
  show "\<And>e. r = Some e \<Longrightarrow> \<not> bucket_missing e"
  proof (cases "op = OpClose")
    case True
    fix e assume "r = Some e"
    with True assms Close_inv(2) show "\<not> bucket_missing e" by simp
  next
    case False
    fix e assume "r = Some e"
    with apply_not_close(3) [OF assms(1) False assms(2)] show "\<not> bucket_missing e" by simp
  qed
qed

lemma run_inv:
  assumes "disk_inv s w"
  shows "disk_inv (fst (disk_run ops (s, w))) (snd (disk_run ops (s, w)))"
  using assms
proof (induction ops arbitrary: s w)
  case Nil
  then show ?case by simp
next
  case (Cons c ops)
  obtain io op where c: "c = (io, op)" by (cases c)
  obtain r s' w' where a: "disk_apply io op s w = (r, s', w')" by (metis prod_cases3)
  from apply_inv(1) [OF Cons.prems a] have "disk_inv s' w'" .
  from Cons.IH [OF this] show ?case by (simp add: c a)
qed

lemma new_store_inv: "disk_inv NewDiskStore w"
  by (simp add: disk_inv_def NewDiskStore_def)

lemmas scenario_defs =
  DiskStore_Get_def DiskStore_Set_def DiskStore_Close_def DiskStore_open_def open_locked_def
  bolt_Open_def db_Update_def db_View_def db_Close_def tx_CreateBucketIfNotExists_def
  tx_Bucket_def tx_store_def bucket_Get_def bucket_Put_def bucket_tx_def MaxKeySize_def
  MaxValueSize_def io_ok_def io_close_fails_def io_create_fails_def
  NewDiskStore_def DefaultDiskStorePath_def no_files_def err_of_def

section \<open>The reference count of a disk store\<close>

text \<open>
  Claim C1. From a newly created store, after every operation the file handle
  is to be open exactly when the reference count is positive, and the count is
  never to be negative. \<^verbatim>\<open>Close\<close> breaks this when the engine fails to close the
  file: it has already taken one off the count, and it returns the engine's error
  with the store still marked open. After a \<^verbatim>\<open>Set\<close>, such a \<^verbatim>\<open>Close\<close> and one
  more \<^verbatim>\<open>Close\<close>, the count is \<open>-1\<close>.
\<close>

theorem failed_close_drives_count_negative:
  "refCount (fst (disk_run [(io_ok, OpSet ''k'' (GString ''v'')), (io_close_fails, OpClose),
                            (io_ok, OpClose)] (NewDiskStore, no_files))) = - 1"
  by (simp add: scenario_defs)

text \<open>The state the failed \<^verbatim>\<open>Close\<close> leaves: marked open, handle open, count 0.\<close>

lemma failed_close_leaves_store_marked_open:
  "opened (fst (disk_run [(io_ok, OpSet ''k'' (GString ''v'')), (io_close_fails, OpClose)]
                  (NewDiskStore, no_files)))
   \<and> handle (fst (disk_run [(io_ok, OpSet ''k'' (GString ''v'')), (io_close_fails, OpClose)]
                  (NewDiskStore, no_files))) = Some DefaultDiskStorePath
   \<and> refCount (fst (disk_run [(io_ok, OpSet ''k'' (GString ''v'')), (io_close_fails, OpClose)]
                  (NewDiskStore, no_files))) = 0"
  by (simp add: scenario_defs)

text \<open>
  \<^verbatim>\<open>open\<close> has a second way to part the count from the file: when the transaction
  that creates the bucket fails, the handler that \<^verbatim>\<open>bolt.Open\<close> returned is
  dropped without \<^verbatim>\<open>Close\<close>. The store is as new, with count 0, and the engine
  still has a handle open on the file.
\<close>

lemma failed_open_leaves_handler_open:
  "fst (snd (DiskStore_open io_create_fails NewDiskStore no_files)) = NewDiskStore
   \<and> held (snd (snd (DiskStore_open io_create_fails NewDiskStore no_files)))
        DefaultDiskStorePath = 1"
  by (simp add: scenario_defs)

text \<open>
  Claim C2. Every successful \<^verbatim>\<open>open\<close> is to add one to the reference count. Two
  callers enter \<^verbatim>\<open>open\<close> on a new store and both pass the lock-free check before
  either takes the lock: the first opens the file and counts itself, the second
  finds the store marked open at the re-check under the lock and returns success
  without counting itself. Both calls succeed and the count is 1.
\<close>

theorem open_race_counts_one_of_two:
  "r_pcs (open_schedule io_ok [0, 1, 0, 1] two_callers) = [Returned None, Returned None]
   \<and> refCount (r_store (open_schedule io_ok [0, 1, 0, 1] two_callers)) = 1"
  by (simp add: open_schedule_def open_step_def two_callers_def scenario_defs)

text \<open>Run one after the other, the same two calls count 2.\<close>

lemma open_in_turn_counts_two:
  "refCount (r_store (open_schedule io_ok [0, 0, 1] two_callers)) = 2"
  by (simp add: open_schedule_def open_step_def two_callers_def scenario_defs)

section \<open>The life of a disk store\<close>

lemma Put_accepts: "engine_accepts k d \<Longrightarrow> bucket_Put b k d = Inr (bucket_insert b k d)"
  by (simp add: engine_accepts_def bucket_Put_def)

lemma two_operations_count:
  assumes "op1 \<noteq> OpClose" and "op2 \<noteq> OpClose"
  shows "refCount (fst (disk_run [(io_ok, op1), (io_ok, op2)] (NewDiskStore, w0))) = 2"
proof -
  obtain s1 w1' where o1: "DiskStore_open io_ok NewDiskStore w0 = (None, s1, w1')"
    using open_io_ok by blast
  from apply_after_open [OF new_store_inv o1 assms(1)]
  obtain r1 w1 where a1: "disk_apply io_ok op1 NewDiskStore w0 = (r1, s1, w1)"
    and inv1: "disk_inv s1 w1" by blast
  have s1: "opened s1" "refCount s1 = 1"
    using open_shape [OF new_store_inv o1] by (auto simp: NewDiskStore_def)
  have o2: "DiskStore_open io_ok s1 w1 = (None, s1\<lparr>refCount := 2\<rparr>, w1)"
    using open_again [OF s1(1)] s1(2) by simp
  from apply_after_open [OF inv1 o2 assms(2)]
  obtain r2 w2 where a2: "disk_apply io_ok op2 s1 w1 = (r2, s1\<lparr>refCount := 2\<rparr>, w2)" by blast
  show ?thesis by (simp add: a1 a2)
qed

text \<open>
  Claim C3. On a new disk store, with the engine reporting no failure and a key
  and value its \<^verbatim>\<open>Put\<close> takes: \<^verbatim>\<open>Set\<close> then \<^verbatim>\<open>Get\<close> leave the reference count
  at 2 (as any two operations other than \<^verbatim>\<open>Close\<close> do) and \<^verbatim>\<open>Get\<close> returns the
  stored bytes; the first \<^verbatim>\<open>Close\<close> leaves the count at 1 with the store marked
  open and the handle open on the file; the second \<^verbatim>\<open>Close\<close> reaches 0 and closes
  the handle; a further \<^verbatim>\<open>Get\<close> opens the file again, with count 1, and returns
  the stored bytes.
\<close>

theorem disk_lifecycle:
  assumes "as_bytes v = Some d" and "engine_accepts k d"
  shows "(\<exists>s1 w1 s2 w2 s3 w3 s4 w4 s5 w5.
           DiskStore_Set io_ok NewDiskStore w0 k v = (None, s1, w1) \<and> refCount s1 = 1 \<and>
           DiskStore_Get io_ok s1 w1 k = (Inr (GBytes d), s2, w2) \<and> refCount s2 = 2 \<and>
           DiskStore_Close io_ok s2 w2 = (None, s3, w3) \<and>
             refCount s3 = 1 \<and> opened s3 \<and> handle s3 \<noteq> None \<and>
             held w3 DefaultDiskStorePath = held w0 DefaultDiskStorePath + 1 \<and>
           DiskStore_Close io_ok s3 w3 = (None, s4, w4) \<and>
             refCount s4 = 0 \<and> \<not> opened s4 \<and> handle s4 = None \<and>
             held w4 DefaultDiskStorePath = held w0 DefaultDiskStorePath \<and>
           DiskStore_Get io_ok s4 w4 k = (Inr (GBytes d), s5, w5) \<and>
             refCount s5 = 1 \<and> opened s5 \<and> handle s5 \<noteq> None \<and>
             held w5 DefaultDiskStorePath = held w0 DefaultDiskStorePath + 1)
         \<and> (\<forall>op1 op2. op1 \<noteq> OpClose \<and> op2 \<noteq> OpClose \<longrightarrow>
               refCount (fst (disk_run [(io_ok, op1), (io_ok, op2)] (NewDiskStore, w0))) = 2)"
proof -
  let ?p = "DefaultDiskStorePath"
  have nf: "\<not> tx_fails io_ok" "\<not> close_fails io_ok" by (simp_all add: io_ok_def)
  have put: "\<And>b. bucket_Put b k d = Inr (bucket_insert b k d)"
    using assms(2) by (rule Put_accepts)
  \<comment> \<open>Set: the first open, then the write\<close>
  obtain s1 w1' where o1: "DiskStore_open io_ok NewDiskStore w0 = (None, s1, w1')"
    using open_io_ok by blast
  have no: "\<not> opened NewDiskStore" and pn: "path NewDiskStore = ?p"
    by (simp_all add: NewDiskStore_def)
  have s1: "s1 = NewDiskStore\<lparr>handle := Some ?p, bucket := DefaultDiskStorePath,
                               opened := True, refCount := refCount NewDiskStore + 1\<rparr>"
    using open_fresh(1) [OF no o1] unfolding pn .
  have h1': "held w1' ?p = held w0 ?p + 1"
    using open_fresh(2) [OF no o1] unfolding pn by simp
  from Set_after_open [OF new_store_inv o1, of k v] assms(1) nf put
  obtain w1 where set1: "DiskStore_Set io_ok NewDiskStore w0 k v = (None, s1, w1)"
    and inv1: "disk_inv s1 w1" and h1: "held w1 = held w1'"
    and lb1: "live_bucket s1 w1 = bucket_insert (live_bucket s1 w1') k d"
    by auto
  have c1: "refCount s1 = 1" "opened s1" "handle s1 = Some ?p" "bucket s1 = DefaultDiskStorePath"
    "path s1 = ?p"
    by (simp_all add: s1 NewDiskStore_def)
  \<comment> \<open>Get: the second open only counts\<close>
  let ?s2 = "s1\<lparr>refCount := 2\<rparr>"
  have o2: "DiskStore_open io_ok s1 w1 = (None, ?s2, w1)"
    using open_again [OF c1(2)] c1(1) by simp
  have get2: "DiskStore_Get io_ok s1 w1 k = (Inr (GBytes d), ?s2, w1)"
    using Get_after_open [OF inv1 o2, of k] nf by (simp add: lb1 map_of_bucket_insert)
  \<comment> \<open>the two closes\<close>
  let ?s3 = "?s2\<lparr>refCount := 1\<rparr>"
  have cl3: "DiskStore_Close io_ok ?s2 w1 = (None, ?s3, w1)"
    using c1 by (simp add: Close_cases)
  let ?s4 = "?s3\<lparr>refCount := 0, handle := None, opened := False\<rparr>"
  let ?w4 = "w1\<lparr>held := (held w1)(?p := held w1 ?p - 1)\<rparr>"
  have cl4: "DiskStore_Close io_ok ?s3 w1 = (None, ?s4, ?w4)"
    using c1 nf by (simp add: Close_cases)
  have h4: "held ?w4 ?p = held w0 ?p" by (simp add: h1 h1')
  \<comment> \<open>Get after the last close opens the same file again\<close>
  obtain f where wp: "files w1 ?p = Some f" and bk: "tx_Bucket f DefaultDiskStorePath \<noteq> None"
    using inv1 c1 unfolding disk_inv_def by auto
  have inv4: "disk_inv ?s4 ?w4" by (simp add: disk_inv_def)
  have no4: "\<not> opened ?s4" and p4: "path ?s4 = ?p" by (simp_all add: c1)
  obtain s5 w5 where o5: "DiskStore_open io_ok ?s4 ?w4 = (None, s5, w5)"
    using open_io_ok by blast
  have s5: "s5 = ?s4\<lparr>handle := Some ?p, bucket := DefaultDiskStorePath,
                       opened := True, refCount := refCount ?s4 + 1\<rparr>"
    using open_fresh(1) [OF no4 o5] unfolding p4 .
  have w5: "files w5 = files w1" "held w5 ?p = held w0 ?p + 1"
    using open_fresh(2) [OF no4 o5] h4 unfolding p4
    by (simp_all add: wp create_bucket_idem [OF bk] map_upd_triv)
  have lb5: "live_bucket s5 w5 = live_bucket s1 w1"
    by (simp add: s5 w5 live_bucket_def c1 wp split: option.splits)
  have get5: "DiskStore_Get io_ok ?s4 ?w4 k = (Inr (GBytes d), s5, w5)"
    using Get_after_open [OF inv4 o5, of k] nf by (simp add: lb5 lb1 map_of_bucket_insert)
  have c5: "refCount s5 = 1" "opened s5" "handle s5 \<noteq> None" by (simp_all add: s5)
  have c3: "held w1 ?p = held w0 ?p + 1" by (simp add: h1 h1')
  have first: "\<exists>s1 w1 s2 w2 s3 w3 s4 w4 s5 w5.
           DiskStore_Set io_ok NewDiskStore w0 k v = (None, s1, w1) \<and> refCount s1 = 1 \<and>
           DiskStore_Get io_ok s1 w1 k = (Inr (GBytes d), s2, w2) \<and> refCount s2 = 2 \<and>
           DiskStore_Close io_ok s2 w2 = (None, s3, w3) \<and>
             refCount s3 = 1 \<and> opened s3 \<and> handle s3 \<noteq> None \<and>
             held w3 DefaultDiskStorePath = held w0 DefaultDiskStorePath + 1 \<and>
           DiskStore_Close io_ok s3 w3 = (None, s4, w4) \<and>
             refCount s4 = 0 \<and> \<not> opened s4 \<and> handle s4 = None \<and>
             held w4 DefaultDiskStorePath = held w0 DefaultDiskStorePath \<and>
           DiskStore_Get io_ok s4 w4 k = (Inr (GBytes d), s5, w5) \<and>
             refCount s5 = 1 \<and> opened s5 \<and> handle s5 \<noteq> None \<and>
             held w5 DefaultDiskStorePath = held w0 DefaultDiskStorePath + 1"
    apply (rule exI [of _ s1], rule exI [of _ w1], rule exI [of _ ?s2], rule exI [of _ w1])
    apply (rule exI [of _ ?s3], rule exI [of _ w1], rule exI [of _ ?s4], rule exI [of _ ?w4])
    apply (rule exI [of _ s5], rule exI [of _ w5])
    using set1 get2 cl3 cl4 get5 c1 c5 c3 h4 w5(2) by simp
  show ?thesis using first two_operations_count by blast
qed


theorem disk_lifecycle_witness:
  "as_bytes (GString ''value'') = Some ''value'' \<and> engine_accepts ''key'' ''value''
   \<and> (\<exists>s1 w1 s2 w2.
          DiskStore_Set io_ok NewDiskStore no_files ''key'' (GString ''value'') = (None, s1, w1)
          \<and> refCount s1 = 1
          \<and> DiskStore_Get io_ok s1 w1 ''key'' = (Inr (GBytes ''value''), s2, w2)
          \<and> refCount s2 = 2)"
proof -
  have a: "as_bytes (GString ''value'') = Some ''value''" by (simp add: as_bytes_def)
  have b: "engine_accepts ''key'' ''value''"
    by (simp add: engine_accepts_def MaxKeySize_def MaxValueSize_def)
  from disk_lifecycle [OF a b, of no_files] a b show ?thesis by blast
qed

section \<open>The bucket is always found\<close>

lemma open_bucket_name:
  assumes "opened s \<longrightarrow> bucket s = DefaultDiskStorePath"
    and "DiskStore_open io s w = (r, s1, w1)"
  shows "opened s1 \<longrightarrow> bucket s1 = DefaultDiskStorePath"
proof (cases "opened s")
  case True
  with assms show ?thesis by (auto simp: DiskStore_open_def)
next
  case False
  with assms(2) show ?thesis
    unfolding DiskStore_open_def open_locked_closed [OF False]
    by (auto simp: Let_def split: if_splits)
qed

lemma apply_bucket_name:
  assumes inv: "disk_inv s w" and nm: "opened s \<longrightarrow> bucket s = DefaultDiskStorePath"
    and run: "disk_apply io op s w = (r, s', w')"
  shows "opened s' \<longrightarrow> bucket s' = DefaultDiskStorePath"
proof (cases "op = OpClose")
  case True
  with run nm show ?thesis by (auto simp: Close_cases split: if_splits)
next
  case False
  from apply_not_close(1) [OF inv False run]
  obtain r0 w1 where "DiskStore_open io s w = (r0, s', w1)" by blast
  from open_bucket_name [OF nm this] show ?thesis .
qed

lemma run_bucket_name:
  assumes "disk_inv s w" and "opened s \<longrightarrow> bucket s = DefaultDiskStorePath"
  shows "opened (fst (disk_run ops (s, w)))
         \<longrightarrow> bucket (fst (disk_run ops (s, w))) = DefaultDiskStorePath"
  using assms
proof (induction ops arbitrary: s w)
  case Nil
  then show ?case by simp
next
  case (Cons c ops)
  obtain io op where c: "c = (io, op)" by (cases c)
  obtain r s' w' where a: "disk_apply io op s w = (r, s', w')" by (metis prod_cases3)
  have "disk_inv s' w'" using apply_inv(1) [OF Cons.prems(1) a] .
  moreover have "opened s' \<longrightarrow> bucket s' = DefaultDiskStorePath"
    using apply_bucket_name [OF Cons.prems a] .
  ultimately show ?case using Cons.IH by (simp add: c a)
qed

text \<open>
  Claim C8. In every state that a sequence of operations reaches from a new
  store, whichever engine calls failed on the way: when \<^verbatim>\<open>open\<close> succeeds, the
  store's bucket name is the name \<^verbatim>\<open>open\<close> creates the bucket under and the file
  the handle is open on has that bucket; and no operation returns an error that
  is, or wraps, "bucket not found".
\<close>

theorem bucket_found_once_open:
  "(\<forall>e. fst (disk_apply io op (fst (disk_run ops (NewDiskStore, w0)))
                              (snd (disk_run ops (NewDiskStore, w0)))) = Some e
         \<longrightarrow> \<not> bucket_missing e)
   \<and> (\<forall>s1 w1. DiskStore_open io (fst (disk_run ops (NewDiskStore, w0)))
                               (snd (disk_run ops (NewDiskStore, w0))) = (None, s1, w1)
         \<longrightarrow> bucket s1 = DefaultDiskStorePath
             \<and> (\<exists>p f. handle s1 = Some p \<and> files w1 p = Some f
                       \<and> tx_Bucket f (bucket s1) \<noteq> None))"
proof (intro conjI allI impI)
  let ?s = "fst (disk_run ops (NewDiskStore, w0))"
  let ?w = "snd (disk_run ops (NewDiskStore, w0))"
  have inv: "disk_inv ?s ?w" by (rule run_inv [OF new_store_inv])
  have nm: "opened ?s \<longrightarrow> bucket ?s = DefaultDiskStorePath"
    by (rule run_bucket_name [OF new_store_inv]) (simp add: NewDiskStore_def)
  {
    fix e assume "fst (disk_apply io op ?s ?w) = Some e"
    then obtain s' w' where "disk_apply io op ?s ?w = (Some e, s', w')"
      by (metis prod.collapse)
    from apply_inv(2) [OF inv this] show "\<not> bucket_missing e" by simp
  }
  {
    fix s1 w1 assume o: "DiskStore_open io ?s ?w = (None, s1, w1)"
    have i1: "disk_inv s1 w1" and o1: "opened s1" using open_opened [OF inv o] by simp_all
    from open_bucket_name [OF nm o] o1 show "bucket s1 = DefaultDiskStorePath" by simp
    from i1 o1 show "\<exists>p f. handle s1 = Some p \<and> files w1 p = Some f
                       \<and> tx_Bucket f (bucket s1) \<noteq> None"
      unfolding disk_inv_def by auto
  }
qed

theorem bucket_found_once_open_witness:
  "fst (disk_apply io_ok (OpGet ''b'')
          (fst (disk_run [(io_ok, OpSet ''a'' (GString ''1''))] (NewDiskStore, no_files)))
          (snd (disk_run [(io_ok, OpSet ''a'' (GString ''1''))] (NewDiskStore, no_files))))
     = Some (KeyNotFound ''b'')
   \<and> \<not> bucket_missing (KeyNotFound ''b'')"
proof -
  have "fst (disk_apply io_ok (OpGet ''b'')
          (fst (disk_run [(io_ok, OpSet ''a'' (GString ''1''))] (NewDiskStore, no_files)))
          (snd (disk_run [(io_ok, OpSet ''a'' (GString ''1''))] (NewDiskStore, no_files))))
     = Some (KeyNotFound ''b'')"
    by (simp add: scenario_defs)
  with bucket_found_once_open [of io_ok "OpGet ''b''"
         "[(io_ok, OpSet ''a'' (GString ''1''))]" no_files]
  show ?thesis by blast
qed

section \<open>The serializers and the serializing store\<close>

text \<open>
  Claim C9. \<^verbatim>\<open>JSONSerializer.Deserialize\<close> of a zero-length byte sequence returns
  the nil value and no error; of non-empty bytes that \<^verbatim>\<open>json.Unmarshal\<close> rejects,
  it returns that error wrapped as a decode error.
\<close>

theorem JSON_Deserialize_empty_and_malformed:
  "JSONSerializer_Deserialize unmarshal [] = Inr GNil
   \<and> (data \<noteq> [] \<and> unmarshal data = Inl msg \<longrightarrow>
        JSONSerializer_Deserialize unmarshal data =
          Inl (Wrap ''unable to deserialize JSON value'' (CodecError msg)))"
  by (simp add: JSONSerializer_Deserialize_def)

theorem JSON_Deserialize_empty_and_malformed_witness:
  "''{oops'' \<noteq> []
   \<and> (\<lambda>d. if d = ''null'' then Inr GNil else Inl ''invalid character'') ''{oops''
        = Inl ''invalid character''
   \<and> JSONSerializer_Deserialize
        (\<lambda>d. if d = ''null'' then Inr GNil else Inl ''invalid character'') ''{oops''
        = Inl (Wrap ''unable to deserialize JSON value'' (CodecError ''invalid character''))"
  using JSON_Deserialize_empty_and_malformed
          [of "\<lambda>d. if d = ''null'' then Inr GNil else Inl ''invalid character''"
              "''{oops''" "''invalid character''"]
  by simp

lemma bucket_tx_error_kind:
  assumes "bucket_tx io s w ctx change = (Some e, s', w')"
    and "\<And>b e'. change b = Inl e' \<Longrightarrow> \<not> unsupported_type e'"
  shows "\<not> unsupported_type e"
  using assms unfolding bucket_tx_def db_Update_def
  by (auto split: option.splits if_splits sum.splits prod.splits)

lemma DiskStore_Set_bytes_error_kind:
  assumes "DiskStore_Set io s w k (GBytes d) = (Some e, s', w')"
  shows "\<not> unsupported_type e"
proof -
  obtain r0 s1 w1 where o: "DiskStore_open io s w = (r0, s1, w1)" by (metis prod_cases3)
  show ?thesis
  proof (cases r0)
    case None
    with assms o
    have "bucket_tx io s1 w1 ''unable to insert value into disk store''
            (\<lambda>b. bucket_Put b k d) = (Some e, s', w')"
      by (simp add: DiskStore_Set_def)
    then show ?thesis by (rule bucket_tx_error_kind) (simp add: Put_error_kind)
  next
    case (Some e0)
    with assms o have "e = Wrap ''failed to open disk store'' e0" by (simp add: DiskStore_Set_def)
    with open_error_kind [OF o [unfolded Some]] show ?thesis by simp
  qed
qed

lemma Store_Set_bytes_error_kind:
  assumes "fst (Store_Set io st k (GBytes d)) = Some e"
  shows "\<not> unsupported_type e"
proof (cases st)
  case (MemoryBackend m)
  with assms show ?thesis by (simp add: MemoryStore_Set_def)
next
  case (DiskBackend s w)
  obtain r s' w' where a: "DiskStore_Set io s w k (GBytes d) = (r, s', w')" by (metis prod_cases3)
  with assms DiskBackend have "r = Some e" by simp
  with a DiskStore_Set_bytes_error_kind show ?thesis by blast
qed

lemma SerializedStore_Set_cases:
  "SerializedStore_Set io \<lparr>store = st, serializer = ser\<rparr> k v =
     (case Serialize ser v of
        Inl e \<Rightarrow> (Some (Wrap ''failed to serialize value'' e), \<lparr>store = st, serializer = ser\<rparr>)
      | Inr d \<Rightarrow> (fst (Store_Set io st k (GBytes d)),
                  \<lparr>store = snd (Store_Set io st k (GBytes d)), serializer = ser\<rparr>))"
  by (simp add: SerializedStore_Set_def split: sum.splits prod.splits)

text \<open>
  Claim C10. \<^verbatim>\<open>SerializedStore.Set\<close> over either backend, in any state and under
  any engine failures, never returns an error that is or wraps the backend's
  "unsupported value type": with either shipped serializer the result is free of
  it; when \<^verbatim>\<open>Serialize\<close> fails the store is returned unchanged, so the backend
  was not called; when it succeeds the backend's \<^verbatim>\<open>Set\<close> is called with a byte
  slice and its error is never the unsupported one; and
  \<^verbatim>\<open>StringSerializer.Serialize\<close> returns bytes for every value.
\<close>

theorem SerializedStore_Set_never_unsupported:
  "(\<forall>e. fst (SerializedStore_Set io \<lparr>store = st, serializer = JSONSerializer marshal unmarshal\<rparr> k v)
          = Some e \<longrightarrow> \<not> unsupported_type e)
   \<and> (\<forall>e. fst (SerializedStore_Set io \<lparr>store = st, serializer = StringSerializer\<rparr> k v)
          = Some e \<longrightarrow> \<not> unsupported_type e)
   \<and> (\<forall>ser e. Serialize ser v = Inl e \<longrightarrow>
          SerializedStore_Set io \<lparr>store = st, serializer = ser\<rparr> k v =
            (Some (Wrap ''failed to serialize value'' e), \<lparr>store = st, serializer = ser\<rparr>))
   \<and> (\<forall>ser d. Serialize ser v = Inr d \<longrightarrow>
          SerializedStore_Set io \<lparr>store = st, serializer = ser\<rparr> k v =
            (fst (Store_Set io st k (GBytes d)),
             \<lparr>store = snd (Store_Set io st k (GBytes d)), serializer = ser\<rparr>)
          \<and> (\<forall>e. fst (Store_Set io st k (GBytes d)) = Some e \<longrightarrow> \<not> unsupported_type e))
   \<and> (\<exists>d. StringSerializer_Serialize v = Inr d)"
proof (intro conjI allI impI)
  fix e
  assume "fst (SerializedStore_Set io \<lparr>store = st, serializer = JSONSerializer marshal unmarshal\<rparr> k v)
          = Some e"
  then show "\<not> unsupported_type e"
    unfolding SerializedStore_Set_cases
    by (auto simp: JSONSerializer_def JSONSerializer_Serialize_def
             split: sum.splits dest: Store_Set_bytes_error_kind)
next
  fix e
  assume "fst (SerializedStore_Set io \<lparr>store = st, serializer = StringSerializer\<rparr> k v) = Some e"
  then show "\<not> unsupported_type e"
    unfolding SerializedStore_Set_cases
    by (auto simp: StringSerializer_def StringSerializer_Serialize_def
             split: sum.splits gval.splits dest: Store_Set_bytes_error_kind)
next
  fix ser :: Serializer and e assume "Serialize ser v = Inl e"
  then show "SerializedStore_Set io \<lparr>store = st, serializer = ser\<rparr> k v =
            (Some (Wrap ''failed to serialize value'' e), \<lparr>store = st, serializer = ser\<rparr>)"
    by (simp add: SerializedStore_Set_cases)
next
  fix ser :: Serializer and d assume "Serialize ser v = Inr d"
  then show "SerializedStore_Set io \<lparr>store = st, serializer = ser\<rparr> k v =
            (fst (Store_Set io st k (GBytes d)),
             \<lparr>store = snd (Store_Set io st k (GBytes d)), serializer = ser\<rparr>)"
    by (simp add: SerializedStore_Set_cases)
next
  fix ser :: Serializer and d e assume "fst (Store_Set io st k (GBytes d)) = Some e"
  then show "\<not> unsupported_type e" by (rule Store_Set_bytes_error_kind)
next
  show "\<exists>d. StringSerializer_Serialize v = Inr d"
    by (cases v) (simp_all add: StringSerializer_Serialize_def)
qed


theorem SerializedStore_Set_never_unsupported_witness:
  "Serialize (JSONSerializer (\<lambda>x. Inl ''json: unsupported type'') (\<lambda>d. Inr GNil))
      (GOther ''chan int'')
     = Inl (Wrap ''unable to serialize value to JSON'' (CodecError ''json: unsupported type''))
   \<and> SerializedStore_Set io_ok
        \<lparr>store = MemoryBackend NewMemoryStore,
         serializer = JSONSerializer (\<lambda>x. Inl ''json: unsupported type'') (\<lambda>d. Inr GNil)\<rparr>
        ''k'' (GOther ''chan int'')
     = (Some (Wrap ''failed to serialize value''
               (Wrap ''unable to serialize value to JSON'' (CodecError ''json: unsupported type''))),
        \<lparr>store = MemoryBackend NewMemoryStore,
         serializer = JSONSerializer (\<lambda>x. Inl ''json: unsupported type'') (\<lambda>d. Inr GNil)\<rparr>)"
proof -
  have h: "Serialize (JSONSerializer (\<lambda>x. Inl ''json: unsupported type'') (\<lambda>d. Inr GNil))
             (GOther ''chan int'')
           = Inl (Wrap ''unable to serialize value to JSON'' (CodecError ''json: unsupported type''))"
    by (simp add: JSONSerializer_def JSONSerializer_Serialize_def)
  from SerializedStore_Set_never_unsupported
         [where io = io_ok and st = "MemoryBackend NewMemoryStore" and k = "''k''"
            and v = "GOther ''chan int''"] h
  show ?thesis by blast
qed

section \<open>What the backends store\<close>


lemma distinct_map_assign:
  "distinct (map fst m) \<Longrightarrow> distinct (map fst (map_assign m k v))"
proof (induction m k v rule: map_assign.induct)
  case (1 k v)
  then show ?case by simp
next
  case (2 k' v' rest k v)
  have "fst ` set (map_assign rest k v) \<subseteq> insert k (fst ` set rest)"
    by (induction rest k v rule: map_assign.induct) auto
  with 2 show ?case by auto
qed




section \<open>Set, then Get, through a serializer\<close>






section \<open>Listing\<close>

lemma HasPrefix_empty [simp]: "HasPrefix k []"
  by (simp add: HasPrefix_def)

lemma mem_list_loop_eq:
  "mem_list_loop m h limit ks count acc =
     acc @ map (\<lambda>k. \<lparr>Key = k, Value = GBytes (map_index m k)\<rparr>)
             (if h then take (nat (limit - count)) ks else ks)"
proof (induction ks arbitrary: count acc)
  case Nil
  then show ?case by simp
next
  case (Cons k ks)
  show ?case
  proof (cases "h \<and> count \<ge> limit")
    case True
    then show ?thesis by simp
  next
    case False
    then have "h \<Longrightarrow> nat (limit - count) = Suc (nat (limit - (count + 1)))" by auto
    with False Cons.IH [of "count + 1"] show ?thesis by auto
  qed
qed

lemma disk_list_loop_eq:
  "disk_list_loop pre h limit b count acc =
     acc @ map (\<lambda>kv. \<lparr>Key = fst kv, Value = GBytes (snd kv)\<rparr>)
             (if h then take (nat (limit - count)) (filter (\<lambda>kv. HasPrefix (fst kv) pre) b)
              else filter (\<lambda>kv. HasPrefix (fst kv) pre) b)"
proof (induction b arbitrary: count acc)
  case Nil
  then show ?case by simp
next
  case (Cons kv b)
  obtain k v where kv: "kv = (k, v)" by (cases kv)
  show ?case
  proof (cases "pre \<noteq> [] \<and> \<not> HasPrefix k pre")
    case True
    then show ?thesis using Cons.IH [of count acc] by (simp add: kv)
  next
    case False
    then have hp: "HasPrefix k pre" by (cases "pre = []") auto
    show ?thesis
    proof (cases "h \<and> count \<ge> limit")
      case True
      with False hp show ?thesis by (auto simp: kv)
    next
      case nolimit: False
      then have "h \<Longrightarrow> nat (limit - count) = Suc (nat (limit - (count + 1)))" by auto
      with False nolimit hp Cons.IH [of "count + 1"] show ?thesis by (auto simp: kv)
    qed
  qed
qed

lemma MemoryStore_List_listing:
  assumes "distinct (map fst (container m))"
  shows "\<exists>es. MemoryStore_List m pre limit = Inr es
              \<and> is_listing (map_of (container m)) pre limit es"
proof -
  let ?c = "container m"
  let ?ks = "sort (filter (\<lambda>k. pre = [] \<or> HasPrefix k pre) (map fst ?c))"
  let ?entry = "\<lambda>k. \<lparr>Key = k, Value = GBytes (map_index ?c k)\<rparr>"
  let ?full = "map ?entry ?ks"
  have run: "MemoryStore_List m pre limit =
               Inr (if limit > 0 then take (nat limit) ?full else ?full)"
    by (simp add: MemoryStore_List_def Let_def mem_list_loop_eq take_map)
  have keys: "map Key ?full = ?ks" by (simp add: comp_def)
  have "distinct ?ks" using assms by (simp add: distinct_map_filter)
  then have srt: "sorted_wrt (<) (map Key ?full)"
    unfolding keys by (simp add: strict_sorted_iff)
  have P: "\<And>k. (pre = [] \<or> HasPrefix k pre) = HasPrefix k pre" by auto
  have set: "set ?full = {\<lparr>Key = k, Value = GBytes v\<rparr> |k v.
                           map_of ?c k = Some v \<and> HasPrefix k pre}"
  proof (intro set_eqI iffI)
    fix e assume "e \<in> set ?full"
    then obtain k where k: "k \<in> fst ` set ?c" "HasPrefix k pre" and e: "e = ?entry k"
      by (auto simp: P)
    from k(1) obtain v where "map_of ?c k = Some v"
      by (metis domD dom_map_of_conv_image_fst)
    with k e show "e \<in> {\<lparr>Key = k, Value = GBytes v\<rparr> |k v.
                           map_of ?c k = Some v \<and> HasPrefix k pre}"
      by (auto simp: map_index_def)
  next
    fix e assume "e \<in> {\<lparr>Key = k, Value = GBytes v\<rparr> |k v.
                           map_of ?c k = Some v \<and> HasPrefix k pre}"
    then obtain k v where kv: "map_of ?c k = Some v" "HasPrefix k pre"
      and e: "e = \<lparr>Key = k, Value = GBytes v\<rparr>" by blast
    from kv(1) have "k \<in> fst ` set ?c" by (metis domI dom_map_of_conv_image_fst)
    with kv e show "e \<in> set ?full" by (auto simp: map_index_def P)
  qed
  show ?thesis unfolding is_listing_def using run srt set by blast
qed

lemma live_bucket_sorted:
  assumes "disk_inv s w" and "opened s" and "files_sorted w"
  shows "sorted_wrt (<) (map fst (live_bucket s w))"
proof -
  obtain p f where "files w p = Some f"
    and b: "tx_Bucket f (bucket s) = Some (live_bucket s w)"
    using assms(1,2) by (rule live_bucket_open)
  moreover have "(bucket s, live_bucket s w) \<in> set f"
    using b unfolding tx_Bucket_def by (rule map_of_SomeD)
  ultimately show ?thesis using assms(3) by (auto dest: files_sorted_file)
qed

lemma bucket_listing:
  assumes "sorted_wrt (<) (map fst b)"
  shows "is_listing (map_of b) pre limit
           (disk_list_loop pre (limit > 0) limit b 0 [])"
proof -
  let ?P = "\<lambda>kv. HasPrefix (fst kv) pre"
  let ?entry = "\<lambda>kv. \<lparr>Key = fst kv, Value = GBytes (snd kv)\<rparr>"
  let ?full = "map ?entry (filter ?P b)"
  have run: "disk_list_loop pre (limit > 0) limit b 0 [] =
               (if limit > 0 then take (nat limit) ?full else ?full)"
    by (simp add: disk_list_loop_eq take_map)
  have "map Key ?full = filter (\<lambda>k. HasPrefix k pre) (map fst b)"
    by (simp add: comp_def filter_map)
  then have srt: "sorted_wrt (<) (map Key ?full)"
    using assms by (simp add: sorted_wrt_filter)
  have dist: "distinct (map fst b)" using assms by (simp add: strict_sorted_iff)
  have set: "set ?full = {\<lparr>Key = k, Value = GBytes v\<rparr> |k v.
                           map_of b k = Some v \<and> HasPrefix k pre}"
    using dist by (auto simp: image_iff)
  show ?thesis unfolding is_listing_def using run srt set by blast
qed


text \<open>The two conditions on the stored data are kept by every operation: the keys
  of the memory store's map are distinct, the engine's buckets are in key order.\<close>

lemma mem_apply_distinct:
  assumes "distinct (map fst (container m))"
  shows "distinct (map fst (container (snd (mem_apply op m))))"
  using assms
  by (cases op)
     (auto simp: MemoryStore_Set_def MemoryStore_Delete_def MemoryStore_Clear_def
        MemoryStore_Close_def map_delete_def distinct_map_filter distinct_map_assign
        split: gval.splits)

lemma mem_run_distinct:
  "distinct (map fst (container m)) \<Longrightarrow> distinct (map fst (container (mem_run ops m)))"
  by (induction ops arbitrary: m) (auto intro: mem_apply_distinct)

lemma Put_sorted:
  "sorted_wrt (<) (map fst b) \<Longrightarrow> bucket_Put b k d = Inr b' \<Longrightarrow> sorted_wrt (<) (map fst b')"
  by (auto simp: bucket_Put_def sorted_bucket_insert split: if_splits)

lemma apply_sorted:
  assumes fs: "files_sorted w" and run: "disk_apply io op s w = (r, s', w')"
  shows "files_sorted w'"
proof -
  obtain r0 s1 w1 where o: "DiskStore_open io s w = (r0, s1, w1)" by (metis prod_cases3)
  have fs1: "files_sorted w1" using open_sorted [OF fs o] .
  have tx: "\<And>ctx change r s' w'. bucket_tx io s1 w1 ctx change = (r, s', w') \<Longrightarrow>
              (\<And>b b'. sorted_wrt (<) (map fst b) \<Longrightarrow> change b = Inr b' \<Longrightarrow>
                         sorted_wrt (<) (map fst b')) \<Longrightarrow> files_sorted w'"
    using bucket_tx_sorted [OF fs1] by blast
  show ?thesis
  proof (cases op)
    case (OpGet k)
    with run o fs1 show ?thesis
      by (auto simp: DiskStore_Get_def split: option.splits sum.splits)
  next
    case (OpSet k v)
    with run o fs1 show ?thesis
      by (auto simp: DiskStore_Set_def split: option.splits gval.splits
               elim!: tx intro: Put_sorted)
  next
    case (OpDelete k)
    with run o fs1 show ?thesis
      by (auto simp: DiskStore_Delete_def split: option.splits
               elim!: tx intro: sorted_bucket_Delete)
  next
    case (OpExists k)
    with run o fs1 show ?thesis
      by (auto simp: DiskStore_Exists_def split: option.splits sum.splits)
  next
    case OpClear
    with run o fs1 show ?thesis
      by (auto simp: DiskStore_Clear_def clear_all split: option.splits elim!: tx)
  next
    case OpSize
    with run o fs1 show ?thesis
      by (auto simp: DiskStore_Size_def split: option.splits sum.splits)
  next
    case (OpList pre limit)
    with run o fs1 show ?thesis
      by (auto simp: DiskStore_List_def split: option.splits sum.splits)
  next
    case OpClose
    with run fs show ?thesis
      by (auto simp: Close_cases split: if_splits option.splits)
  qed
qed

lemma run_sorted:
  "files_sorted (snd sw) \<Longrightarrow> files_sorted (snd (disk_run ops sw))"
proof (induction ops arbitrary: sw)
  case Nil
  then show ?case by simp
next
  case (Cons c ops)
  obtain io op where c: "c = (io, op)" by (cases c)
  obtain r s' w' where a: "disk_apply io op (fst sw) (snd sw) = (r, s', w')"
    by (metis prod_cases3)
  from apply_sorted [OF Cons.prems a] have "files_sorted w'" .
  with Cons.IH [of "(s', w')"] show ?case by (simp add: c a)
qed

text \<open>
  Claim C4. For every state of a memory store, and every consistent state of a
  disk store whose engine reports no failure, every prefix and every limit,
  \<^verbatim>\<open>List(prefix, limit)\<close> returns the entries whose keys start with the prefix
  (every key starts with the empty prefix), each once, in ascending key order,
  cut to the first \<open>limit\<close> of them when \<open>limit > 0\<close> and whole when \<open>limit \<le> 0\<close>.
\<close>

theorem List_filtered_sorted_truncated:
  assumes "distinct (map fst (container m))" and "disk_inv s w" and "files_sorted w"
  shows "(\<exists>es. MemoryStore_List m pre limit = Inr es
              \<and> is_listing (map_of (container m)) pre limit es)
       \<and> (\<exists>es s1 w1. DiskStore_open io_ok s w = (None, s1, w1)
              \<and> DiskStore_List io_ok s w pre limit = (Inr es, s1, w1)
              \<and> is_listing (map_of (live_bucket s1 w1)) pre limit es)"
proof
  show "\<exists>es. MemoryStore_List m pre limit = Inr es
              \<and> is_listing (map_of (container m)) pre limit es"
    using assms(1) by (rule MemoryStore_List_listing)
next
  obtain s1 w1 where o: "DiskStore_open io_ok s w = (None, s1, w1)"
    using open_io_ok by blast
  have nf: "\<not> tx_fails io_ok" by (simp add: io_ok_def)
  have "sorted_wrt (<) (map fst (live_bucket s1 w1))"
    using open_opened [OF assms(2) o] open_sorted [OF assms(3) o]
    by (rule live_bucket_sorted)
  then have "is_listing (map_of (live_bucket s1 w1)) pre limit
               (disk_list_loop pre (limit > 0) limit (live_bucket s1 w1) 0 [])"
    by (rule bucket_listing)
  moreover have "DiskStore_List io_ok s w pre limit =
      (Inr (disk_list_loop pre (limit > 0) limit (live_bucket s1 w1) 0 []), s1, w1)"
    using List_after_open [OF assms(2) o, of pre limit] nf by simp
  ultimately show "\<exists>es s1 w1. DiskStore_open io_ok s w = (None, s1, w1)
              \<and> DiskStore_List io_ok s w pre limit = (Inr es, s1, w1)
              \<and> is_listing (map_of (live_bucket s1 w1)) pre limit es"
    using o by blast
qed

lemma list_example:
  "MemoryStore_List \<lparr>container = [(''b'', ''2''), (''a'', ''1'')]\<rparr> [] 1
     = Inr [\<lparr>Key = ''a'', Value = GBytes ''1''\<rparr>]"
  by (simp add: MemoryStore_List_def map_index_def)


theorem List_filtered_sorted_truncated_witness:
  "distinct (map fst (container \<lparr>container = [(''b'', ''2''), (''a'', ''1'')]\<rparr>))
   \<and> disk_inv NewDiskStore no_files \<and> files_sorted no_files
   \<and> is_listing (map_of [(''b'', ''2''), (''a'', ''1'')]) [] 1
        [\<lparr>Key = ''a'', Value = GBytes ''1''\<rparr>]"
proof -
  have a: "distinct (map fst (container \<lparr>container = [(''b'', ''2''), (''a'', ''1'')]\<rparr>))"
    by simp
  have b: "disk_inv NewDiskStore no_files" by (rule new_store_inv)
  have c: "files_sorted no_files" by (simp add: files_sorted_def no_files_def)
  from List_filtered_sorted_truncated [OF a b c, of "[]" 1]
  obtain es where "MemoryStore_List \<lparr>container = [(''b'', ''2''), (''a'', ''1'')]\<rparr> [] 1 = Inr es"
    and "is_listing (map_of [(''b'', ''2''), (''a'', ''1'')]) [] 1 es"
    by auto
  with list_example a b c show ?thesis by simp
qed

end
